theory Spec2Isabelle
  imports Main "HOL-Library.Multiset"
begin

section \<open>Distributed bitonic sort: the local primitives\<close>

text \<open>
  The program (\<^verbatim>\<open>arbitrary.cpp\<close>, and the bitonic-only variant that follows it in the
  same file) sorts a sequence of \<open>n\<close> integers over \<open>n / 2 + 1\<close> MPI processes. The ranks
  of the processes, the sizes of the buffers and the offsets into them are C \<open>int\<close>s
  that are never negative in a run (MPI ranks and counts derived from the number of
  processes); in the model of the processes they are \<open>nat\<close>, and the subtraction
  \<open>rank - m / 2\<close> of the receiver branch is only evaluated where it does not go below
  zero. The function \<open>isInSubset\<close>, which computes with its arguments, is modelled on
  \<open>int\<close> with the range of the machine type written out. The elements of the
  sequence are only compared and moved, never computed with; they are modelled as
  \<open>int\<close>.
\<close>

type_synonym buffer = "int list"

subsection \<open>compareSwap\<close>

text \<open>
  The guard of line 37, \<^verbatim>\<open>ascending ^ (subsequence[i] < subsequence[i+half])\<close>:
  the exclusive or of two booleans.
\<close>

definition swap_guard :: "bool \<Rightarrow> int \<Rightarrow> int \<Rightarrow> bool" where
  "swap_guard ascending a b = (ascending \<noteq> (a < b))"

text \<open>The three assignments of lines 39 to 41, with \<open>j = i + half\<close>.\<close>

definition swap_cells :: "buffer \<Rightarrow> nat \<Rightarrow> nat \<Rightarrow> buffer" where
  "swap_cells s i j = (let temp = s ! i; s1 = s[i := s ! j] in s1[j := temp])"

text \<open>
  The loop of lines 36 to 43. The state is the buffer together with a record of the
  iterations whose swap branch was executed (a ghost list: the source keeps no such
  record, the result buffer is the first component). An access at or beyond the end of
  the buffer is undefined behaviour in C and is the value \<open>None\<close>.
\<close>

function compareSwap_loop ::
  "buffer \<Rightarrow> nat \<Rightarrow> bool \<Rightarrow> nat \<Rightarrow> nat list \<Rightarrow> (buffer \<times> nat list) option" where
  "compareSwap_loop s half ascending i swapped =
     (if i < half then
        (if i + half < length s then
           (if swap_guard ascending (s ! i) (s ! (i + half))
            then compareSwap_loop (swap_cells s i (i + half)) half ascending (Suc i) (swapped @ [i])
            else compareSwap_loop s half ascending (Suc i) swapped)
         else None)
      else Some (s, swapped))"
  by pat_completeness auto
termination
  by (relation "measure (\<lambda>(s, half, ascending, i, swapped). half - i)") auto

declare compareSwap_loop.simps [simp del]

definition compareSwap_run :: "buffer \<Rightarrow> nat \<Rightarrow> bool \<Rightarrow> (buffer \<times> nat list) option" where
  "compareSwap_run subsequence n_elements ascending =
     (let half = n_elements div 2 in compareSwap_loop subsequence half ascending 0 [])"

text \<open>\<open>compareSwap\<close>: the buffer after the call.\<close>

definition compareSwap :: "buffer \<Rightarrow> nat \<Rightarrow> bool \<Rightarrow> buffer option" where
  "compareSwap subsequence n_elements ascending =
     map_option fst (compareSwap_run subsequence n_elements ascending)"

text \<open>The iterations \<open>i\<close> at which the call executed the swap.\<close>

definition compareSwap_swapped :: "buffer \<Rightarrow> nat \<Rightarrow> bool \<Rightarrow> nat list option" where
  "compareSwap_swapped subsequence n_elements ascending =
     map_option snd (compareSwap_run subsequence n_elements ascending)"

subsection \<open>isInSubset\<close>

text \<open>
  The parameters, the loop counter and the ranks of \<open>isInSubset\<close> are C \<open>int\<close>s, here of
  32 bits. An addition whose result leaves the range is undefined behaviour; the model
  records it as a trap. The division of C truncates towards zero.
\<close>

definition INT_MAX :: int where
  "INT_MAX = 2147483647"

definition INT_MIN :: int where
  "INT_MIN = - 2147483648"

definition is_int :: "int \<Rightarrow> bool" where
  "is_int x = (INT_MIN \<le> x \<and> x \<le> INT_MAX)"

definition c_div :: "int \<Rightarrow> int \<Rightarrow> int" where
  "c_div a b = sgn a * sgn b * (\<bar>a\<bar> div \<bar>b\<bar>)"

datatype trap = Division_by_zero | Signed_overflow

text \<open>
  The loop of lines 60 to 62 that fills the vector \<open>nodes\<close>. The body evaluates
  \<open>i + offset\<close>; the increment \<open>half / step\<close> is evaluated at the end of every iteration
  and added to the counter. With \<open>step = 0\<close> the division traps, and when the quotient is
  \<open>0\<close> the counter never advances and the loop never ends (the value \<open>None\<close>; the model has
  unbounded memory, the vector grows with every iteration).
\<close>

partial_function (option) isInSubset_loop ::
  "int \<Rightarrow> int \<Rightarrow> int \<Rightarrow> int \<Rightarrow> int list \<Rightarrow> (trap + int list) option" where
  "isInSubset_loop half step offset i nodes =
     (if i < half then
        (if \<not> is_int (i + offset) then Some (Inl Signed_overflow)
         else if step = 0 then Some (Inl Division_by_zero)
         else if \<not> is_int (c_div half step) then Some (Inl Signed_overflow)
         else if \<not> is_int (i + c_div half step) then Some (Inl Signed_overflow)
         else isInSubset_loop half step offset (i + c_div half step) (nodes @ [i + offset]))
      else Some (Inr nodes))"

declare isInSubset_loop.simps [code]

text \<open>
  \<open>isInSubset\<close> returns the closure of line 63: \<open>std::find\<close> over the captured vector.
\<close>

definition isInSubset :: "int \<Rightarrow> int \<Rightarrow> int \<Rightarrow> (trap + (int \<Rightarrow> bool)) option" where
  "isInSubset half step offset =
     map_option (map_sum id (\<lambda>nodes rank. List.member nodes rank))
       (isInSubset_loop half step offset 0 [])"

text \<open>The closure applied to a rank, as in \<^verbatim>\<open>isASender(rank)\<close>.\<close>

definition isInSubset_at :: "int \<Rightarrow> int \<Rightarrow> int \<Rightarrow> int \<Rightarrow> (trap + bool) option" where
  "isInSubset_at half step offset rank =
     map_option (map_sum id (\<lambda>p. p rank)) (isInSubset half step offset)"

text \<open>
  The subset as the specification words it, for comparison with the code: the \<open>s\<close>
  ranks \<open>o, o + h/s, o + 2 (h/s), \<dots>\<close>, that is \<open>o + j (h/s)\<close> for \<open>0 \<le> j < s\<close>.
\<close>

definition subset_as_specified :: "int \<Rightarrow> int \<Rightarrow> int \<Rightarrow> int \<Rightarrow> bool" where
  "subset_as_specified h s o' r =
     List.member (map (\<lambda>j. o' + int j * c_div h s) [0..<nat s]) r"

subsection \<open>The rounds of bitonicSort\<close>

text \<open>
  The loop of lines 84 to 102, \<^verbatim>\<open>while (m > 1) { ... m /= 2; step *= 2; }\<close>: the pairs
  \<open>(m, step)\<close> with which its body is executed, in order.
\<close>

function bitonicSort_rounds_from :: "nat \<Rightarrow> nat \<Rightarrow> (nat \<times> nat) list" where
  "bitonicSort_rounds_from m step =
     (if m > 1 then (m, step) # bitonicSort_rounds_from (m div 2) (step * 2) else [])"
  by pat_completeness auto
termination
  by (relation "measure (\<lambda>(m, step). m)") auto

declare bitonicSort_rounds_from.simps [simp del]

definition bitonicSort_rounds :: "nat \<Rightarrow> (nat \<times> nat) list" where
  "bitonicSort_rounds n = bitonicSort_rounds_from (n div 2) 1"


section \<open>The distributed program\<close>

text \<open>
  Every process owns one buffer \<open>buf\<close>; a state of the program is the list of these
  buffers, indexed by rank. The processes communicate by \<open>MPI_Send\<close> and \<open>MPI_Recv\<close>
  only, every receive names its source, and the control flow of a process depends on its
  rank and on the sizes, never on the data; the program is therefore modelled phase by
  phase, all processes together. In one phase a process first sends (at most one
  message, read from its buffer as the phase begins), then receives, then applies
  compareSwap to its buffer. A send is assumed to return without waiting for the
  receiver (the program itself relies on that, where a process sends to itself before it
  receives); a receive waits for the message of its source. A phase in which a receive
  finds no message, or a message finds no receive, has no result: the value \<open>None\<close>
  stands for a run that does not go on normally (a process waits for ever, a loop never
  ends, a division traps, or a buffer is accessed outside its bounds).
\<close>

type_synonym world = "buffer list"

text \<open>\<open>&buf[offset]\<close> read for \<open>cnt\<close> elements, and written with a message.\<close>

definition slice :: "buffer \<Rightarrow> nat \<Rightarrow> nat \<Rightarrow> int list option" where
  "slice buf offset cnt =
     (if offset + cnt \<le> length buf then Some (take cnt (drop offset buf)) else None)"

definition store :: "buffer \<Rightarrow> nat \<Rightarrow> int list \<Rightarrow> buffer option" where
  "store buf offset msg =
     (if offset + length msg \<le> length buf
      then Some (take offset buf @ msg @ drop (offset + length msg) buf) else None)"

text \<open>
  What one process does in one phase: \<open>MPI_Send(&buf[offset], count, MPI_INT, dest, \<dots>)\<close>
  as \<open>(offset, count, dest)\<close>, each \<open>MPI_Recv(&buf[offset], count, MPI_INT, source, \<dots>)\<close>
  as \<open>(offset, count, source)\<close>, and \<open>compareSwap(buf, n_elements, ascending)\<close> as
  \<open>(n_elements, ascending)\<close>.
\<close>

record ops =
  send_op :: "(nat \<times> nat \<times> nat) option"
  recv_ops :: "(nat \<times> nat \<times> nat) list"
  local_op :: "(nat \<times> bool) option"

definition idle :: ops where
  "idle = \<lparr>send_op = None, recv_ops = [], local_op = None\<rparr>"

text \<open>The message that \<open>source\<close> sends to \<open>dest\<close> in the phase, if it sends one.\<close>

definition message :: "(nat \<Rightarrow> ops) \<Rightarrow> world \<Rightarrow> nat \<Rightarrow> nat \<Rightarrow> int list option" where
  "message prog w source dest =
     (if source < length w then
        (case send_op (prog source) of
           None \<Rightarrow> None
         | Some (offset, cnt, d) \<Rightarrow> if d = dest then slice (w ! source) offset cnt else None)
      else None)"

text \<open>
  The receives of a process, in order. A message longer than the \<open>count\<close> of the
  receive is an error of the transport.
\<close>

fun receive_all ::
  "(nat \<Rightarrow> ops) \<Rightarrow> world \<Rightarrow> nat \<Rightarrow> (nat \<times> nat \<times> nat) list \<Rightarrow> buffer \<Rightarrow> buffer option" where
  "receive_all prog w rank [] buf = Some buf"
| "receive_all prog w rank ((offset, cnt, source) # rs) buf =
     (case message prog w source rank of
        None \<Rightarrow> None
      | Some msg \<Rightarrow>
          if length msg \<le> cnt
          then (case store buf offset msg of
                  None \<Rightarrow> None
                | Some buf' \<Rightarrow> receive_all prog w rank rs buf')
          else None)"

definition node_step :: "(nat \<Rightarrow> ops) \<Rightarrow> world \<Rightarrow> nat \<Rightarrow> buffer option" where
  "node_step prog w rank =
     (case receive_all prog w rank (recv_ops (prog rank)) (w ! rank) of
        None \<Rightarrow> None
      | Some buf \<Rightarrow>
          (case local_op (prog rank) of
             None \<Rightarrow> Some buf
           | Some (n_elements, ascending) \<Rightarrow> compareSwap buf n_elements ascending))"

text \<open>
  Every message of the phase is received: its destination is a process that has a
  receive from the sender; and no process has two receives from one source (there is
  at most one message from it).
\<close>

definition sends_matched :: "(nat \<Rightarrow> ops) \<Rightarrow> world \<Rightarrow> bool" where
  "sends_matched prog w =
     list_all (\<lambda>r.
        (case send_op (prog r) of
           None \<Rightarrow> True
         | Some (offset, cnt, d) \<Rightarrow> d < length w \<and> List.member (map (snd \<circ> snd) (recv_ops (prog d))) r)
        \<and> distinct (map (snd \<circ> snd) (recv_ops (prog r))))
       [0..<length w]"

definition exchange :: "(nat \<Rightarrow> ops) \<Rightarrow> world \<Rightarrow> world option" where
  "exchange prog w =
     (if sends_matched prog w then those (map (node_step prog w) [0..<length w]) else None)"

subsection \<open>bitonicSort\<close>

text \<open>
  bitonicSort is called (line 178) by the ranks of one group,
  \<open>master_node \<le> rank < master_node + k / 2\<close> (line 176); the other ranks take no part.
\<close>

definition in_group :: "nat \<Rightarrow> nat \<Rightarrow> nat \<Rightarrow> bool" where
  "in_group k master_node rank = (master_node \<le> rank \<and> rank < master_node + k div 2)"

definition within :: "nat \<Rightarrow> nat \<Rightarrow> (nat \<Rightarrow> ops) \<Rightarrow> nat \<Rightarrow> ops" where
  "within k master_node prog rank = (if in_group k master_node rank then prog rank else idle)"

text \<open>Lines 79 to 82: the first compare-swap, on the sub-master only.\<close>

definition bitonicSort_first :: "nat \<Rightarrow> nat \<Rightarrow> bool \<Rightarrow> nat \<Rightarrow> ops" where
  "bitonicSort_first n master_node ascending rank =
     (if rank = master_node then idle\<lparr>local_op := Some (n, ascending)\<rparr> else idle)"

text \<open>
  Lines 90 to 98: the body of the loop, for the two closures of lines 87 and 88. The
  difference \<open>rank - m / 2\<close> is computed for a receiver only, whose rank is at least
  \<open>master_node + m / 2\<close>.
\<close>

definition bitonicSort_round :: "(nat \<Rightarrow> bool) \<Rightarrow> (nat \<Rightarrow> bool) \<Rightarrow> nat \<Rightarrow> bool \<Rightarrow> nat \<Rightarrow> ops" where
  "bitonicSort_round isASender isAReceiver m ascending rank =
     (if isASender rank then
        (let receiver = rank + m div 2
         in \<lparr>send_op = Some (m, m, receiver), recv_ops = [], local_op = Some (m, ascending)\<rparr>)
      else if isAReceiver rank then
        (let sender = rank - m div 2
         in \<lparr>send_op = None, recv_ops = [(0, m, sender)], local_op = Some (m, ascending)\<rparr>)
      else idle)"

text \<open>
  A call of isInSubset that traps returns no closure. The closure that a call returns is
  applied to the rank of the process.
\<close>

definition returned :: "(trap + (int \<Rightarrow> bool)) option \<Rightarrow> (nat \<Rightarrow> bool) option" where
  "returned r = (case r of Some (Inr p) \<Rightarrow> Some (\<lambda>rank. p (int rank)) | _ \<Rightarrow> None)"

text \<open>Lines 84 to 102: the loop over the rounds.\<close>

function bitonicSort_loop :: "world \<Rightarrow> nat \<Rightarrow> nat \<Rightarrow> bool \<Rightarrow> nat \<Rightarrow> nat \<Rightarrow> world option" where
  "bitonicSort_loop w n master_node ascending m step =
     (if m > 1 then
        (case returned (isInSubset (int (n div 2)) (int step) (int master_node)) of
           None \<Rightarrow> None
         | Some isASender \<Rightarrow>
            (case returned (isInSubset (int (n div 2)) (int step) (int (master_node + m div 2))) of
               None \<Rightarrow> None
             | Some isAReceiver \<Rightarrow>
                (case exchange (within n master_node
                                 (bitonicSort_round isASender isAReceiver m ascending)) w of
                   None \<Rightarrow> None
                 | Some w' \<Rightarrow> bitonicSort_loop w' n master_node ascending (m div 2) (step * 2))))
      else Some w)"
  by pat_completeness auto
termination
  by (relation "measure (\<lambda>(w, n, master_node, ascending, m, step). m)") auto

declare bitonicSort_loop.simps [simp del]

text \<open>
  Lines 108 to 116: every other rank of the group sends its two elements to the
  sub-master, which receives them in the order of the ranks.
\<close>

definition bitonicSort_gather :: "nat \<Rightarrow> nat \<Rightarrow> nat \<Rightarrow> ops" where
  "bitonicSort_gather n master_node rank =
     (if rank \<noteq> master_node then idle\<lparr>send_op := Some (0, 2, master_node)\<rparr>
      else idle\<lparr>recv_ops := map (\<lambda>i. (2 * i, 2, master_node + i)) [1..<n div 2]\<rparr>)"

definition bitonicSort :: "world \<Rightarrow> nat \<Rightarrow> nat \<Rightarrow> bool \<Rightarrow> world option" where
  "bitonicSort w n master_node ascending =
     (case exchange (within n master_node (bitonicSort_first n master_node ascending)) w of
        None \<Rightarrow> None
      | Some w1 \<Rightarrow>
         (case bitonicSort_loop w1 n master_node ascending (n div 2) 1 of
            None \<Rightarrow> None
          | Some w2 \<Rightarrow> exchange (within n master_node (bitonicSort_gather n master_node)) w2))"

subsection \<open>main\<close>

text \<open>
  The memory of the processes before anything is written to it is a parameter
  \<open>mem\<close>: \<open>mem r i\<close> is what rank \<open>r\<close> finds at \<open>buf[i]\<close>, also for \<open>i\<close> beyond the
  end of the buffer. Rank 0 fills its buffer with the test vector when \<open>n = 16\<close> and
  with a shuffled sequence otherwise (lines 134 to 146); the shuffled sequence is a
  parameter too.
\<close>

definition test_vector :: "int list" where
  "test_vector = [10, 6, 14, 11, 9, 16, 3, 13, 8, 12, 5, 2, 4, 15, 1, 7]"

definition initial_world :: "nat \<Rightarrow> int list \<Rightarrow> (nat \<Rightarrow> nat \<Rightarrow> int) \<Rightarrow> world" where
  "initial_world nb_instances shuffled mem =
     (let cnodes = nb_instances - 1; n = cnodes * 2;
          A = (if n = 16 then test_vector else shuffled)
      in map (\<lambda>rank. map (\<lambda>i. if rank = 0 \<and> i < length A then A ! i else mem rank i) [0..<n])
           [0..<nb_instances])"

text \<open>
  Line 152: \<open>MPI_Scatter(buf, 2, MPI_INT, buf, 2, MPI_INT, 0, MPI_COMM_WORLD)\<close>. Rank
  \<open>r\<close> receives the cells \<open>2 r\<close> and \<open>2 r + 1\<close> of the buffer of rank 0 into its cells
  0 and 1. There are \<open>n / 2 + 1\<close> processes, so the chunk of the last rank is read
  beyond the \<open>n\<close> cells of that buffer.
\<close>

definition MPI_Scatter :: "world \<Rightarrow> (nat \<Rightarrow> nat \<Rightarrow> int) \<Rightarrow> world option" where
  "MPI_Scatter w mem =
     (let sendbuf = (\<lambda>i. if i < length (w ! 0) then w ! 0 ! i else mem 0 i)
      in those (map (\<lambda>rank. store (w ! rank) 0 [sendbuf (2 * rank), sendbuf (2 * rank + 1)])
                  [0..<length w]))"

text \<open>Lines 152 and 153.\<close>

definition main_scatter :: "nat \<Rightarrow> int list \<Rightarrow> (nat \<Rightarrow> nat \<Rightarrow> int) \<Rightarrow> world option" where
  "main_scatter nb_instances shuffled mem =
     (case MPI_Scatter (initial_world nb_instances shuffled mem) mem of
        None \<Rightarrow> None
      | Some w \<Rightarrow> exchange (\<lambda>rank. idle\<lparr>local_op := Some (2, rank mod 2 = 0)\<rparr>) w)"

text \<open>
  Lines 160 to 171, the merge step: the ranks \<open>i = 0, k/4, 2 (k/4), \<dots>\<close> below \<open>n / 2\<close>
  send their first \<open>k / 2\<close> elements to their sub-master, which receives the two halves
  of its sub-sequence. With \<open>k / 4 = 0\<close> the for loop would never end.
\<close>

definition merge_ops :: "nat \<Rightarrow> nat \<Rightarrow> nat \<Rightarrow> ops" where
  "merge_ops n k rank =
     (if rank < n div 2 \<and> rank mod (k div 4) = 0 then
        (let i = rank;
             master_node = (if i mod (k div 2) = 0 then i else i - k div 4)
         in \<lparr>send_op = Some (0, k div 2, master_node),
             recv_ops = (if rank = master_node
                         then [(0, k div 2, i), (k div 2, k div 2, i + k div 4)] else []),
             local_op = None\<rparr>)
      else idle)"

definition merge_step :: "world \<Rightarrow> nat \<Rightarrow> nat \<Rightarrow> world option" where
  "merge_step w n k = (if k div 4 = 0 then None else exchange (merge_ops n k) w)"

text \<open>
  Lines 174 to 180: group \<open>i\<close> sorts its sub-sequence, ascending when \<open>i\<close> is even.
  The groups are disjoint and exchange no message with each other; their calls are
  taken one after the other.
\<close>

fun sort_groups :: "world \<Rightarrow> nat \<Rightarrow> nat list \<Rightarrow> world option" where
  "sort_groups w k [] = Some w"
| "sort_groups w k (i # is) =
     (let master_node = i * (k div 2); ascending = (i mod 2 = 0)
      in case bitonicSort w k master_node ascending of
           None \<Rightarrow> None
         | Some w' \<Rightarrow> sort_groups w' k is)"

text \<open>Lines 156 to 182: the loop over the widths \<open>k = 4, 8, \<dots>\<close>.\<close>

partial_function (option) main_loop :: "nat \<Rightarrow> nat \<Rightarrow> world \<Rightarrow> world option" where
  "main_loop n k w =
     (if k \<le> n then
        (case merge_step w n k of
           None \<Rightarrow> None
         | Some w1 \<Rightarrow>
            (case sort_groups w1 k [0..<n div k] of
               None \<Rightarrow> None
             | Some w2 \<Rightarrow> main_loop n (k * 2) w2))
      else Some w)"

declare main_loop.simps [code]

text \<open>The whole program: what rank 0 prints (lines 186 to 192).\<close>

definition main :: "nat \<Rightarrow> int list \<Rightarrow> (nat \<Rightarrow> nat \<Rightarrow> int) \<Rightarrow> int list option" where
  "main nb_instances shuffled mem =
     (let cnodes = nb_instances - 1; n = cnodes * 2
      in case main_scatter nb_instances shuffled mem of
           None \<Rightarrow> None
         | Some w \<Rightarrow>
            (case main_loop n 4 w of
               None \<Rightarrow> None
             | Some w' \<Rightarrow> Some (w' ! 0)))"


subsection \<open>Auxiliary notions for the proofs\<close>

text \<open>What one iteration of the loop of compareSwap leaves in a pair of cells.\<close>

definition pair_result :: "bool \<Rightarrow> int \<Rightarrow> int \<Rightarrow> int \<times> int" where
  "pair_result ascending a b = (if swap_guard ascending a b then (b, a) else (a, b))"

text \<open>
  The content of cell \<open>j\<close> once the loop of compareSwap, started at iteration \<open>i\<close> on
  the buffer \<open>s\<close>, has ended.
\<close>

definition loop_cell :: "buffer \<Rightarrow> nat \<Rightarrow> bool \<Rightarrow> nat \<Rightarrow> nat \<Rightarrow> int" where
  "loop_cell s half ascending i j =
     (if i \<le> j \<and> j < half then fst (pair_result ascending (s ! j) (s ! (j + half)))
      else if i + half \<le> j \<and> j < half + half
           then snd (pair_result ascending (s ! (j - half)) (s ! j))
      else s ! j)"

text \<open>
  The order relation the specification gives as the reason for a swap: ascending
  requested and the first element larger, or descending requested and it smaller.
\<close>

definition order_contradicts :: "bool \<Rightarrow> int \<Rightarrow> int \<Rightarrow> bool" where
  "order_contradicts ascending a b = ((ascending \<and> b < a) \<or> (\<not> ascending \<and> a < b))"

text \<open>
  The value of the counter of the loop of isInSubset in its last iteration, when the
  increment \<open>half / step\<close> is at least 1: the largest multiple of the increment below
  \<open>half\<close>. No addition of the loop leaves the range of \<open>int\<close> exactly when the offset is
  in the range and neither the rank computed in the last iteration nor the counter after
  it exceeds \<open>INT_MAX\<close>.
\<close>

definition isInSubset_last :: "int \<Rightarrow> int \<Rightarrow> int" where
  "isInSubset_last half step = (half - 1) div c_div half step * c_div half step"

definition isInSubset_in_range :: "int \<Rightarrow> int \<Rightarrow> int \<Rightarrow> bool" where
  "isInSubset_in_range half step offset =
     (INT_MIN \<le> offset \<and> isInSubset_last half step + offset \<le> INT_MAX
      \<and> isInSubset_last half step + c_div half step \<le> INT_MAX)"

text \<open>
  The body of the loop of bitonicSort for one round, and its iteration over a list of
  rounds: the loop written over the list \<open>bitonicSort_rounds\<close>.
\<close>

definition round_body :: "nat \<Rightarrow> nat \<Rightarrow> bool \<Rightarrow> nat \<times> nat \<Rightarrow> world \<Rightarrow> world option" where
  "round_body n master_node ascending ms w =
     (case ms of (m, step) \<Rightarrow>
        (case returned (isInSubset (int (n div 2)) (int step) (int master_node)) of
           None \<Rightarrow> None
         | Some isASender \<Rightarrow>
            (case returned (isInSubset (int (n div 2)) (int step) (int (master_node + m div 2))) of
               None \<Rightarrow> None
             | Some isAReceiver \<Rightarrow>
                exchange (within n master_node
                           (bitonicSort_round isASender isAReceiver m ascending)) w)))"

fun over_rounds ::
  "(nat \<times> nat \<Rightarrow> world \<Rightarrow> world option) \<Rightarrow> (nat \<times> nat) list \<Rightarrow> world \<Rightarrow> world option" where
  "over_rounds f [] w = Some w"
| "over_rounds f (ms # rest) w = (case f ms w of None \<Rightarrow> None | Some w' \<Rightarrow> over_rounds f rest w')"

text \<open>
  What one round of half-width \<open>m\<close> and stride \<open>step\<close> does when it takes the state \<open>v\<close>
  to the state \<open>v'\<close>: the two closures are returned, they are true of the ranks
  \<open>master + t m\<close> and \<open>master + m / 2 + t m\<close> for \<open>t < step\<close>; a sender sends its \<open>m\<close>
  cells from offset \<open>m\<close> to the rank \<open>m / 2\<close> above it and applies compareSwap to its
  first \<open>m\<close> cells, a receiver receives \<open>m\<close> cells at offset 0 from the rank \<open>m / 2\<close>
  below it and applies compareSwap to its first \<open>m\<close> cells, every other rank does
  nothing; and the buffers of \<open>v'\<close> are those of \<open>v\<close> after these operations.
\<close>

definition round_holds :: "nat \<Rightarrow> nat \<Rightarrow> bool \<Rightarrow> nat \<Rightarrow> nat \<Rightarrow> world \<Rightarrow> world \<Rightarrow> bool" where
  "round_holds k master ascending m step v v' =
     (\<exists>S R. returned (isInSubset (int (k div 2)) (int step) (int master)) = Some S
          \<and> returned (isInSubset (int (k div 2)) (int step) (int (master + m div 2))) = Some R
          \<and> (\<forall>r. S r \<longleftrightarrow> (\<exists>t<step. r = master + t * m))
          \<and> (\<forall>r. R r \<longleftrightarrow> (\<exists>t<step. r = master + m div 2 + t * m))
          \<and> (\<forall>r. S r \<longrightarrow> within k master (bitonicSort_round S R m ascending) r
                = \<lparr>send_op = Some (m, m, r + m div 2), recv_ops = [],
                   local_op = Some (m, ascending)\<rparr>)
          \<and> (\<forall>r. R r \<longrightarrow> within k master (bitonicSort_round S R m ascending) r
                = \<lparr>send_op = None, recv_ops = [(0, m, r - m div 2)],
                   local_op = Some (m, ascending)\<rparr>)
          \<and> (\<forall>r. \<not> S r \<and> \<not> R r \<longrightarrow>
                within k master (bitonicSort_round S R m ascending) r = idle)
          \<and> exchange (within k master (bitonicSort_round S R m ascending)) v = Some v'
          \<and> (\<forall>r<length v.
                (S r \<longrightarrow> compareSwap (v ! r) m ascending = Some (v' ! r))
              \<and> (R r \<longrightarrow> compareSwap (take m (drop m (v ! (r - m div 2))) @ drop m (v ! r))
                             m ascending = Some (v' ! r))
              \<and> (\<not> S r \<and> \<not> R r \<longrightarrow> v' ! r = v ! r)))"






section \<open>Properties of the local primitives\<close>

subsection \<open>The loop of compareSwap\<close>

lemma swap_cells_length [simp]: "length (swap_cells s i j) = length s"
  by (simp add: swap_cells_def Let_def)

lemma swap_cells_nth:
  "i < length s \<Longrightarrow> j < length s \<Longrightarrow> l < length s \<Longrightarrow>
   swap_cells s i j ! l = (if l = j then s ! i else if l = i then s ! j else s ! l)"
  by (auto simp: swap_cells_def Let_def nth_list_update)

lemma swap_cells_mset:
  "i < length s \<Longrightarrow> j < length s \<Longrightarrow> mset (swap_cells s i j) = mset s"
  unfolding swap_cells_def Let_def by (simp add: mset_swap)

lemma loop_cell_done: "loop_cell s half ascending half j = s ! j"
  by (simp add: loop_cell_def)

lemma loop_cell_keep:
  assumes "i < half" "\<not> swap_guard ascending (s ! i) (s ! (i + half))"
  shows "loop_cell s half ascending (Suc i) j = loop_cell s half ascending i j"
proof -
  consider "j = i" | "j = i + half" | "j \<noteq> i" "j \<noteq> i + half" by blast
  then show ?thesis
  proof cases
    case 1 then show ?thesis using assms by (simp add: loop_cell_def pair_result_def)
  next
    case 2 then show ?thesis using assms by (simp add: loop_cell_def pair_result_def)
  next
    case 3
    then have "(Suc i \<le> j) = (i \<le> j)" "(Suc i + half \<le> j) = (i + half \<le> j)" by arith+
    then show ?thesis by (simp add: loop_cell_def)
  qed
qed

lemma loop_cell_swap:
  assumes "i < half" "half + half \<le> length s" "j < length s"
    and "swap_guard ascending (s ! i) (s ! (i + half))"
  shows "loop_cell (swap_cells s i (i + half)) half ascending (Suc i) j = loop_cell s half ascending i j"
proof -
  let ?s1 = "swap_cells s i (i + half)"
  have inb: "i < length s" "i + half < length s" using assms by simp_all
  have same: "?s1 ! l = s ! l" if "l < length s" "l \<noteq> i" "l \<noteq> i + half" for l
    using that inb by (simp add: swap_cells_nth)
  consider "j = i" | "j = i + half" | "Suc i \<le> j" "j < half"
    | "Suc i + half \<le> j" "j < half + half" | "j < i" | "half \<le> j" "j < i + half" | "half + half \<le> j"
    by arith
  then show ?thesis
  proof cases
    case 1 then show ?thesis using assms inb
      by (simp add: loop_cell_def pair_result_def swap_cells_nth)
  next
    case 2 then show ?thesis using assms inb
      by (simp add: loop_cell_def pair_result_def swap_cells_nth)
  next
    case 3
    then have "?s1 ! j = s ! j" "?s1 ! (j + half) = s ! (j + half)"
      using assms by (simp_all add: same)
    then show ?thesis using 3 by (simp add: loop_cell_def)
  next
    case 4
    then have "?s1 ! j = s ! j" "?s1 ! (j - half) = s ! (j - half)"
      using assms by (simp_all add: same)
    then show ?thesis using 4 by (simp add: loop_cell_def)
  next
    case 5
    then have "?s1 ! j = s ! j" using assms by (simp add: same)
    then show ?thesis using 5 assms(1) by (simp add: loop_cell_def)
  next
    case 6
    then have "?s1 ! j = s ! j" using assms by (simp add: same)
    then show ?thesis using 6 assms(1) by (simp add: loop_cell_def)
  next
    case 7
    then have "?s1 ! j = s ! j" using assms by (simp add: same)
    then show ?thesis using 7 assms(1) by (simp add: loop_cell_def)
  qed
qed

lemma swap_cells_guard_later:
  assumes "i < half" "half + half \<le> length s" "Suc i \<le> j" "j < half"
  shows "swap_guard ascending (swap_cells s i (i + half) ! j) (swap_cells s i (i + half) ! (j + half))
       = swap_guard ascending (s ! j) (s ! (j + half))"
  using assms by (simp add: swap_cells_nth)

lemma compareSwap_loop_char:
  "i \<le> half \<Longrightarrow> half + half \<le> length s \<Longrightarrow>
   \<exists>s'. compareSwap_loop s half ascending i swapped =
          Some (s', swapped @ filter (\<lambda>j. swap_guard ascending (s ! j) (s ! (j + half))) [i..<half])
      \<and> length s' = length s
      \<and> (\<forall>j<length s. s' ! j = loop_cell s half ascending i j)"
proof (induction s half ascending i swapped rule: compareSwap_loop.induct)
  case (1 s half ascending i swapped)
  show ?case
  proof (cases "i < half")
    case False
    with 1(3) have "i = half" by simp
    then show ?thesis
      by (subst compareSwap_loop.simps) (simp add: loop_cell_done)
  next
    case True
    then have inb: "i + half < length s" using 1(4) by simp
    have up: "[i..<half] = i # [Suc i..<half]" using True by (simp add: upt_conv_Cons)
    show ?thesis
    proof (cases "swap_guard ascending (s ! i) (s ! (i + half))")
      case g: True
      let ?s1 = "swap_cells s i (i + half)"
      have flt: "filter (\<lambda>j. swap_guard ascending (?s1 ! j) (?s1 ! (j + half))) [Suc i..<half]
               = filter (\<lambda>j. swap_guard ascending (s ! j) (s ! (j + half))) [Suc i..<half]"
        using True 1(4) by (intro filter_cong refl) (simp add: swap_cells_guard_later)
      have "Suc i \<le> half" "half + half \<le> length ?s1" using True 1(4) by simp_all
      from "1.IH"(1)[OF True inb g this]
      obtain s' where s': "compareSwap_loop ?s1 half ascending (Suc i) (swapped @ [i]) =
          Some (s', (swapped @ [i]) @ filter (\<lambda>j. swap_guard ascending (?s1 ! j) (?s1 ! (j + half))) [Suc i..<half])"
        "length s' = length ?s1"
        "\<forall>j<length ?s1. s' ! j = loop_cell ?s1 half ascending (Suc i) j"
        by blast
      have eq: "compareSwap_loop s half ascending i swapped =
          Some (s', swapped @ filter (\<lambda>j. swap_guard ascending (s ! j) (s ! (j + half))) [i..<half])"
        by (subst compareSwap_loop.simps) (simp add: True inb g s'(1) flt up)
      have nth: "s' ! j = loop_cell s half ascending i j" if "j < length s" for j
        using s'(3) that loop_cell_swap[OF True 1(4) that g] by simp
      show ?thesis using eq s'(2) nth by simp
    next
      case g: False
      have "Suc i \<le> half" using True by simp
      from "1.IH"(2)[OF True inb g this 1(4)]
      obtain s' where s': "compareSwap_loop s half ascending (Suc i) swapped =
          Some (s', swapped @ filter (\<lambda>j. swap_guard ascending (s ! j) (s ! (j + half))) [Suc i..<half])"
        "length s' = length s"
        "\<forall>j<length s. s' ! j = loop_cell s half ascending (Suc i) j"
        by blast
      have eq: "compareSwap_loop s half ascending i swapped =
          Some (s', swapped @ filter (\<lambda>j. swap_guard ascending (s ! j) (s ! (j + half))) [i..<half])"
        by (subst compareSwap_loop.simps) (simp add: True inb g s'(1) up)
      have nth: "s' ! j = loop_cell s half ascending i j" if "j < length s" for j
        using s'(3) that loop_cell_keep[OF True g] by simp
      show ?thesis using eq s'(2) nth by simp
    qed
  qed
qed

lemma compareSwap_loop_mset:
  "compareSwap_loop s half ascending i swapped = Some r \<Longrightarrow> mset (fst r) = mset s"
proof (induction s half ascending i swapped rule: compareSwap_loop.induct)
  case (1 s half ascending i swapped)
  show ?case
  proof (cases "i < half \<and> i + half < length s")
    case False
    then show ?thesis using "1.prems"
      by (subst (asm) compareSwap_loop.simps) (auto split: if_splits)
  next
    case True
    show ?thesis
    proof (cases "swap_guard ascending (s ! i) (s ! (i + half))")
      case g: True
      have "compareSwap_loop (swap_cells s i (i + half)) half ascending (Suc i) (swapped @ [i]) = Some r"
        using "1.prems" True g by (subst (asm) compareSwap_loop.simps) simp
      from "1.IH"(1)[OF _ _ g this] True
      show ?thesis by (simp add: swap_cells_mset)
    next
      case g: False
      have "compareSwap_loop s half ascending (Suc i) swapped = Some r"
        using "1.prems" True g by (subst (asm) compareSwap_loop.simps) simp
      from "1.IH"(2)[OF _ _ g this] True
      show ?thesis by simp
    qed
  qed
qed

lemma compareSwap_loop_None:
  "i < half \<Longrightarrow> length s < half + half \<Longrightarrow> compareSwap_loop s half ascending i swapped = None"
proof (induction s half ascending i swapped rule: compareSwap_loop.induct)
  case (1 s half ascending i swapped)
  show ?case
  proof (cases "i + half < length s")
    case False
    then show ?thesis using 1(3) by (subst compareSwap_loop.simps) simp
  next
    case True
    then have "Suc i < half" using 1(4) by simp
    then show ?thesis using 1 True
      by (subst compareSwap_loop.simps) (auto)
  qed
qed

subsection \<open>The loop of isInSubset\<close>

lemma c_div_pos: "0 < a \<Longrightarrow> 0 < b \<Longrightarrow> c_div a b = a div b"
  by (simp add: c_div_def)

lemma c_div_zero: "0 \<le> a \<Longrightarrow> a < b \<Longrightarrow> c_div a b = 0"
  by (simp add: c_div_def)

lemma isInSubset_loop_nodes:
  fixes half step offset :: int
  assumes "0 < step" "0 < half div step"
  shows "0 \<le> i \<Longrightarrow>
         (\<And>t::nat. i + int t * (half div step) < half \<Longrightarrow>
             is_int (i + int t * (half div step) + offset)
           \<and> is_int (i + int t * (half div step) + half div step)) \<Longrightarrow>
         \<exists>ns. isInSubset_loop half step offset i nodes = Some (Inr ns)
           \<and> set ns = set nodes \<union> {i + int t * (half div step) + offset | t. i + int t * (half div step) < half}"
proof (induction "nat (half - i)" arbitrary: i nodes rule: less_induct)
  case less
  let ?inc = "half div step"
  have hpos: "0 < half"
  proof (rule ccontr)
    assume "\<not> 0 < half"
    then have "half \<le> 0" by simp
    from div_nonpos_pos_le0[OF this assms(1)] assms(2) show False by simp
  qed
  have cd: "c_div half step = ?inc" using hpos assms(1) by (rule c_div_pos)
  show ?case
  proof (cases "i < half")
    case False
    then have "{i + int t * ?inc + offset | t. i + int t * ?inc < half} = {}"
      using assms(2) by (auto simp: not_less intro: add_increasing2)
    then show ?thesis using False
      by (subst isInSubset_loop.simps) simp
  next
    case True
    from less.prems(2)[of 0] True
    have r0: "is_int (i + offset)" "is_int (i + ?inc)" by simp_all
    have rq: "is_int ?inc" using r0(2) less.prems(1) assms(2) by (simp add: is_int_def INT_MIN_def)
    have m: "nat (half - (i + ?inc)) < nat (half - i)" using True assms(2) by simp
    have p1: "0 \<le> i + ?inc" using less.prems(1) assms(2) by simp
    have p2: "is_int (i + ?inc + int t * ?inc + offset) \<and> is_int (i + ?inc + int t * ?inc + ?inc)"
      if "i + ?inc + int t * ?inc < half" for t
      using less.prems(2)[of "Suc t"] that by (simp add: algebra_simps)
    from less.hyps[OF m p1 p2, of "nodes @ [i + offset]"]
    obtain ns where ns: "isInSubset_loop half step offset (i + ?inc) (nodes @ [i + offset]) = Some (Inr ns)"
      "set ns = set (nodes @ [i + offset]) \<union> {i + ?inc + int t * ?inc + offset | t. i + ?inc + int t * ?inc < half}"
      by blast
    have eq: "isInSubset_loop half step offset i nodes = Some (Inr ns)"
      using True assms(1) ns(1) r0 rq by (subst isInSubset_loop.simps) (simp add: cd)
    have "{i + int t * ?inc + offset | t. i + int t * ?inc < half}
        = insert (i + offset) {i + ?inc + int t * ?inc + offset | t. i + ?inc + int t * ?inc < half}"
      (is "?A = insert _ ?B")
    proof (intro set_eqI iffI)
      fix x assume "x \<in> ?A"
      then obtain t where t: "x = i + int t * ?inc + offset" "i + int t * ?inc < half" by blast
      show "x \<in> insert (i + offset) ?B"
      proof (cases t)
        case 0 then show ?thesis using t by simp
      next
        case (Suc t')
        then have "x = i + ?inc + int t' * ?inc + offset" "i + ?inc + int t' * ?inc < half"
          using t by (simp_all add: algebra_simps)
        then show ?thesis by blast
      qed
    next
      fix x assume "x \<in> insert (i + offset) ?B"
      then consider "x = i + offset" | t' where "x = i + ?inc + int t' * ?inc + offset" "i + ?inc + int t' * ?inc < half"
        by blast
      then show "x \<in> ?A"
      proof cases
        case 1
        then have "x = i + int 0 * ?inc + offset \<and> i + int 0 * ?inc < half" using True by simp
        then show ?thesis by blast
      next
        case 2
        then have "x = i + int (Suc t') * ?inc + offset \<and> i + int (Suc t') * ?inc < half"
          by (simp add: algebra_simps)
        then show ?thesis by blast
      qed
    qed
    then show ?thesis using eq ns(2) by auto
  qed
qed

lemma isInSubset_loop_diverges:
  assumes "0 \<le> half" "half < step" "i < half" "is_int i" "is_int (i + offset)"
  shows "isInSubset_loop half step offset i nodes = None"
proof (rule ccontr)
  assume "isInSubset_loop half step offset i nodes \<noteq> None"
  then obtain y where y: "isInSubset_loop half step offset i nodes = Some y" by blast
  have "\<not> (0 \<le> half \<and> half < step \<and> i < half \<and> is_int i \<and> is_int (i + offset))"
  proof (rule isInSubset_loop.raw_induct
      [where P = "\<lambda>half step offset i nodes y.
         \<not> (0 \<le> half \<and> half < step \<and> i < half \<and> is_int i \<and> is_int (i + offset))", OF _ y])
    fix loop :: "int \<Rightarrow> int \<Rightarrow> int \<Rightarrow> int \<Rightarrow> int list \<Rightarrow> (trap + int list) option"
    fix half step offset i nodes y
    assume IH: "\<And>half step offset i nodes y. loop half step offset i nodes = Some y \<Longrightarrow>
                  \<not> (0 \<le> half \<and> half < step \<and> i < half \<and> is_int i \<and> is_int (i + offset))"
      and eq: "(if i < half then
        (if \<not> is_int (i + offset) then Some (Inl Signed_overflow)
         else if step = 0 then Some (Inl Division_by_zero)
         else if \<not> is_int (c_div half step) then Some (Inl Signed_overflow)
         else if \<not> is_int (i + c_div half step) then Some (Inl Signed_overflow)
         else loop half step offset (i + c_div half step) (nodes @ [i + offset]))
      else Some (Inr nodes)) = Some y"
    show "\<not> (0 \<le> half \<and> half < step \<and> i < half \<and> is_int i \<and> is_int (i + offset))"
    proof
      assume a: "0 \<le> half \<and> half < step \<and> i < half \<and> is_int i \<and> is_int (i + offset)"
      then have z: "c_div half step = 0" by (simp add: c_div_zero)
      have "is_int 0" by (simp add: is_int_def INT_MIN_def INT_MAX_def)
      with eq a z have "loop half step offset (i + c_div half step) (nodes @ [i + offset]) = Some y"
        by (auto split: if_splits)
      from IH[OF this] a z show False by simp
    qed
  qed
  with assms show False by simp
qed


subsection \<open>compareSwap as a function on buffers\<close>

lemma compareSwap_run_char:
  assumes "n \<le> length s"
  shows "\<exists>s'. compareSwap_run s n ascending =
            Some (s', filter (\<lambda>j. swap_guard ascending (s ! j) (s ! (j + n div 2))) [0..<n div 2])
         \<and> length s' = length s
         \<and> (\<forall>j<length s. s' ! j = loop_cell s (n div 2) ascending 0 j)"
proof -
  have "n div 2 + n div 2 \<le> length s" using assms by arith
  from compareSwap_loop_char[OF _ this, of 0 ascending "[]"]
  show ?thesis by (simp add: compareSwap_run_def)
qed

lemma compareSwap_mset:
  "compareSwap s n ascending = Some s' \<Longrightarrow> mset s' = mset s"
  by (auto simp: compareSwap_def compareSwap_run_def dest: compareSwap_loop_mset)

lemma compareSwap_length:
  "compareSwap s n ascending = Some s' \<Longrightarrow> length s' = length s"
  by (drule compareSwap_mset) (rule mset_eq_length)

lemma pair_result_idem:
  "pair_result ascending (fst (pair_result ascending a b)) (snd (pair_result ascending a b))
   = pair_result ascending a b"
  by (auto simp: pair_result_def swap_guard_def)

lemma pair_result_ordered:
  "if ascending then fst (pair_result ascending a b) \<le> snd (pair_result ascending a b)
   else snd (pair_result ascending a b) \<le> fst (pair_result ascending a b)"
  by (auto simp: pair_result_def swap_guard_def)

lemma swap_guard_iff:
  "swap_guard ascending a b \<longleftrightarrow> (ascending \<and> b \<le> a) \<or> (\<not> ascending \<and> a < b)"
  by (auto simp: swap_guard_def)

text \<open>
  The result of a call on a buffer that holds at least \<open>n_elements\<close> cells: the swapped
  iterations are those whose guard holds on the original pair, and every cell is given
  by \<open>pair_result\<close> on the original pair it belongs to.
\<close>

lemma compareSwap_char:
  assumes "n \<le> length s"
  obtains s' where
    "compareSwap s n ascending = Some s'"
    "compareSwap_swapped s n ascending =
       Some (filter (\<lambda>j. swap_guard ascending (s ! j) (s ! (j + n div 2))) [0..<n div 2])"
    "length s' = length s"
    "\<And>i. i < n div 2 \<Longrightarrow> s' ! i = fst (pair_result ascending (s ! i) (s ! (i + n div 2)))"
    "\<And>i. i < n div 2 \<Longrightarrow> s' ! (i + n div 2) = snd (pair_result ascending (s ! i) (s ! (i + n div 2)))"
    "\<And>j. j < length s \<Longrightarrow> 2 * (n div 2) \<le> j \<Longrightarrow> s' ! j = s ! j"
proof -
  let ?h = "n div 2"
  let ?sw = "filter (\<lambda>j. swap_guard ascending (s ! j) (s ! (j + ?h))) [0..<?h]"
  from compareSwap_run_char[OF assms, of ascending]
  obtain s' where run: "compareSwap_run s n ascending = Some (s', ?sw)"
    and len: "length s' = length s"
    and cell: "\<And>j. j < length s \<Longrightarrow> s' ! j = loop_cell s ?h ascending 0 j"
    by blast
  have cs: "compareSwap s n ascending = Some s'" and sw: "compareSwap_swapped s n ascending = Some ?sw"
    using run by (simp_all add: compareSwap_def compareSwap_swapped_def)
  have lo: "s' ! i = fst (pair_result ascending (s ! i) (s ! (i + ?h)))"
    and hi: "s' ! (i + ?h) = snd (pair_result ascending (s ! i) (s ! (i + ?h)))" if "i < ?h" for i
  proof -
    have "i < length s" "i + ?h < length s" using that assms by arith+
    then show "s' ! i = fst (pair_result ascending (s ! i) (s ! (i + ?h)))"
      and "s' ! (i + ?h) = snd (pair_result ascending (s ! i) (s ! (i + ?h)))"
      using that by (simp_all add: cell loop_cell_def)
  qed
  have rest: "s' ! j = s ! j" if "j < length s" "2 * ?h \<le> j" for j
    using that by (simp add: cell loop_cell_def)
  show thesis using that[OF cs sw len lo hi rest] by blast
qed

lemma compareSwap_twice:
  assumes "n \<le> length s" "compareSwap s n ascending = Some s'"
  shows "compareSwap s' n ascending = Some s'"
proof -
  let ?h = "n div 2"
  obtain t where t: "compareSwap s n ascending = Some t" "length t = length s"
    "\<And>i. i < ?h \<Longrightarrow> t ! i = fst (pair_result ascending (s ! i) (s ! (i + ?h)))"
    "\<And>i. i < ?h \<Longrightarrow> t ! (i + ?h) = snd (pair_result ascending (s ! i) (s ! (i + ?h)))"
    by (rule compareSwap_char[OF assms(1), of ascending]) blast
  have ts: "t = s'" using t(1) assms(2) by simp
  have n': "n \<le> length s'" using assms(1) t(2) ts by simp
  obtain u where u: "compareSwap s' n ascending = Some u" "length u = length s'"
    "\<And>i. i < ?h \<Longrightarrow> u ! i = fst (pair_result ascending (s' ! i) (s' ! (i + ?h)))"
    "\<And>i. i < ?h \<Longrightarrow> u ! (i + ?h) = snd (pair_result ascending (s' ! i) (s' ! (i + ?h)))"
    "\<And>j. j < length s' \<Longrightarrow> 2 * ?h \<le> j \<Longrightarrow> u ! j = s' ! j"
    by (rule compareSwap_char[OF n', of ascending]) blast
  have "u = s'"
  proof (rule nth_equalityI)
    show "length u = length s'" by (rule u(2))
  next
    fix j assume "j < length u"
    then have j: "j < length s'" using u(2) by simp
    consider "j < ?h" | "?h \<le> j" "j < 2 * ?h" | "2 * ?h \<le> j" by arith
    then show "u ! j = s' ! j"
    proof cases
      case 1
      then show ?thesis
        using u(3)[OF 1] t(3)[OF 1] t(4)[OF 1] ts
          pair_result_idem[of ascending "s ! j" "s ! (j + ?h)"] by simp
    next
      case 2
      then have i: "j - ?h < ?h" and ji: "j = (j - ?h) + ?h" by arith+
      have a: "s' ! (j - ?h) = fst (pair_result ascending (s ! (j - ?h)) (s ! j))"
        using t(3)[OF i] ts ji by simp
      have b: "s' ! j = snd (pair_result ascending (s ! (j - ?h)) (s ! j))"
        using t(4)[OF i] ts ji by simp
      have "u ! j = snd (pair_result ascending (s' ! (j - ?h)) (s' ! j))"
        using u(4)[OF i] ji by simp
      then show ?thesis
        using pair_result_idem[of ascending "s ! (j - ?h)" "s ! j"] by (simp add: a b)
    next
      case 3
      then show ?thesis using u(5)[OF j] by simp
    qed
  qed
  then show ?thesis using u(1) by simp
qed

text \<open>
  On a tie the swap is executed exactly when ascending is requested: the guard is the
  exclusive or of the direction with a strict comparison, which is false on a tie. The
  two cells hold the same values after the call in both cases.
\<close>

lemma compareSwap_on_tie:
  assumes "n \<le> length s" "i < n div 2" "s ! i = s ! (i + n div 2)"
  shows "\<exists>s' sw. compareSwap s n ascending = Some s'
           \<and> compareSwap_swapped s n ascending = Some sw
           \<and> (i \<in> set sw \<longleftrightarrow> ascending)
           \<and> s' ! i = s ! i \<and> s' ! (i + n div 2) = s ! (i + n div 2)"
proof -
  let ?h = "n div 2"
  let ?sw = "filter (\<lambda>j. swap_guard ascending (s ! j) (s ! (j + ?h))) [0..<?h]"
  obtain s' where cs: "compareSwap s n ascending = Some s'"
    and sw: "compareSwap_swapped s n ascending = Some ?sw"
    and lo: "\<And>i. i < ?h \<Longrightarrow> s' ! i = fst (pair_result ascending (s ! i) (s ! (i + ?h)))"
    and hi: "\<And>i. i < ?h \<Longrightarrow> s' ! (i + ?h) = snd (pair_result ascending (s ! i) (s ! (i + ?h)))"
    by (rule compareSwap_char[OF assms(1), of ascending]) blast
  have "i \<in> set ?sw \<longleftrightarrow> ascending"
    using assms(2,3) by (simp add: swap_guard_def)
  moreover have "s' ! i = s ! i" "s' ! (i + ?h) = s ! (i + ?h)"
    using lo[OF assms(2)] hi[OF assms(2)] assms(3) by (simp_all add: pair_result_def)
  ultimately show ?thesis using cs sw by blast
qed

subsection \<open>isInSubset as a set of ranks\<close>

lemma is_int_0: "is_int 0"
  by (simp add: is_int_def INT_MIN_def INT_MAX_def)

lemma isInSubset_in_range_iterations:
  fixes half step offset :: int
  assumes "0 < step" "0 < half div step" "isInSubset_in_range half step offset"
    and t: "int t * (half div step) < half"
  shows "is_int (int t * (half div step) + offset)"
        "is_int (int t * (half div step) + half div step)"
proof -
  let ?q = "half div step"
  have hpos: "0 < half"
  proof (rule ccontr)
    assume "\<not> 0 < half"
    then have "half \<le> 0" by simp
    from div_nonpos_pos_le0[OF this assms(1)] assms(2) show False by simp
  qed
  have cd: "c_div half step = ?q" using hpos assms(1) by (rule c_div_pos)
  let ?L = "(half - 1) div ?q * ?q"
  have rng: "INT_MIN \<le> offset" "?L + offset \<le> INT_MAX" "?L + ?q \<le> INT_MAX"
    using assms(3) by (simp_all add: isInSubset_in_range_def isInSubset_last_def cd)
  have "int t * ?q \<le> half - 1" using t by simp
  then have "int t * ?q div ?q \<le> (half - 1) div ?q" by (rule zdiv_mono1) (rule assms(2))
  then have "int t \<le> (half - 1) div ?q" using assms(2) by simp
  then have le: "int t * ?q \<le> ?L" using assms(2) by (simp add: mult_right_mono)
  have nn: "0 \<le> int t * ?q" using assms(2) by simp
  have neg: "INT_MIN \<le> 0" by (simp add: INT_MIN_def)
  show "is_int (int t * ?q + offset)"
    unfolding is_int_def using rng(1,2) le nn by linarith
  show "is_int (int t * ?q + ?q)"
    unfolding is_int_def using rng(3) le nn neg assms(2) by linarith
qed

lemma isInSubset_char:
  fixes half step offset :: int
  assumes "0 < step" "0 < half div step" "isInSubset_in_range half step offset"
  obtains p where "isInSubset half step offset = Some (Inr p)"
    "\<And>r. p r \<longleftrightarrow> (\<exists>j::nat. int j * (half div step) < half \<and> r = offset + int j * (half div step))"
proof -
  have rng: "is_int (0 + int t * (half div step) + offset)
           \<and> is_int (0 + int t * (half div step) + half div step)"
    if "0 + int t * (half div step) < half" for t
  proof -
    from that have lt: "int t * (half div step) < half" by simp
    from isInSubset_in_range_iterations[OF assms lt] show ?thesis by simp
  qed
  from isInSubset_loop_nodes[OF assms(1,2) order_refl rng, where nodes = "[]"]
  obtain ns where ns: "isInSubset_loop half step offset 0 [] = Some (Inr ns)"
    "set ns = {int t * (half div step) + offset | t. int t * (half div step) < half}"
    by auto
  let ?p = "\<lambda>rank. List.member ns rank"
  have 1: "isInSubset half step offset = Some (Inr ?p)"
    by (simp add: isInSubset_def ns(1))
  have 2: "?p r \<longleftrightarrow> (\<exists>j::nat. int j * (half div step) < half \<and> r = offset + int j * (half div step))" for r
    by (auto simp: ns(2))
  show thesis using that[OF 1 2] .
qed

lemma isInSubset_diverges:
  assumes "0 < half" "half < step" "is_int offset"
  shows "isInSubset half step offset = None"
proof -
  have "isInSubset_loop half step offset 0 [] = None"
    using assms is_int_0 by (intro isInSubset_loop_diverges) simp_all
  then show ?thesis by (simp add: isInSubset_def)
qed

lemma strided_dvd:
  fixes h s j :: nat
  assumes "0 < s" "s dvd h" "0 < h"
  shows "(j * (h div s) < h) = (j < s)"
proof -
  obtain q where q: "h = s * q" using assms(2) by (auto simp: dvd_def)
  have "0 < q" using q assms(3) by (cases "q = 0") simp_all
  have "h div s = q" using q assms(1) by simp
  with \<open>0 < q\<close> show ?thesis using q by (simp add: mult.commute)
qed

lemma strided_dvd_int:
  fixes h s :: int
  assumes "0 < s" "s dvd h" "0 < h"
  shows "(int j * (h div s) < h) = (int j < s)"
proof -
  obtain q where q: "h = s * q" using assms(2) by (auto simp: dvd_def)
  have "0 < q" using q assms(1,3) by (simp add: zero_less_mult_iff)
  have "h div s = q" using q assms(1) by simp
  with \<open>0 < q\<close> show ?thesis using q by (simp add: mult.commute)
qed

lemma isInSubset_last_dvd:
  fixes h s :: int
  assumes "0 < s" "s dvd h" "0 < h"
  shows "isInSubset_last h s = h - h div s"
proof -
  obtain q where q: "h = s * q" using assms(2) by (auto simp: dvd_def)
  have qp: "0 < q" using q assms(1,3) by (simp add: zero_less_mult_iff)
  have hq: "h div s = q" using q assms(1) by simp
  have "(h - 1) div q = s - 1"
  proof -
    have "h - 1 = (s - 1) * q + (q - 1)" using q by (simp add: algebra_simps)
    then have "(h - 1) div q = ((s - 1) * q + (q - 1)) div q" by (simp only:)
    also have "\<dots> = s - 1" using qp by simp
    finally show ?thesis .
  qed
  then have "isInSubset_last h s = (s - 1) * q"
    by (simp add: isInSubset_last_def c_div_pos[OF assms(3,1)] hq)
  also have "\<dots> = h - q" using q by (simp add: algebra_simps)
  finally show ?thesis by (simp add: hq)
qed

lemma isInSubset_last_le:
  fixes h s :: int
  assumes "0 < s" "0 < h div s"
  shows "0 \<le> isInSubset_last h s" "isInSubset_last h s \<le> h - 1"
proof -
  have hpos: "0 < h"
  proof (rule ccontr)
    assume "\<not> 0 < h"
    then have "h \<le> 0" by simp
    from div_nonpos_pos_le0[OF this assms(1)] assms(2) show False by simp
  qed
  have cd: "c_div h s = h div s" using hpos assms(1) by (rule c_div_pos)
  have "0 \<le> (h - 1) div (h div s)" using hpos assms(2) by (simp add: pos_imp_zdiv_nonneg_iff)
  then show "0 \<le> isInSubset_last h s" using assms(2) by (simp add: isInSubset_last_def cd)
  have "(h - 1) div (h div s) * (h div s) \<le> h - 1"
    using div_mult_mod_eq[of "h - 1" "h div s"] pos_mod_sign[OF assms(2), of "h - 1"] by linarith
  then show "isInSubset_last h s \<le> h - 1" by (simp add: isInSubset_last_def cd)
qed

lemma isInSubset_in_range_simple:
  fixes h s :: int
  assumes "0 < s" "0 < h div s" "INT_MIN \<le> offset" "offset + h \<le> INT_MAX + 1"
    "h + h div s \<le> INT_MAX + 1"
  shows "isInSubset_in_range h s offset"
proof -
  have hpos: "0 < h"
  proof (rule ccontr)
    assume "\<not> 0 < h"
    then have "h \<le> 0" by simp
    from div_nonpos_pos_le0[OF this assms(1)] assms(2) show False by simp
  qed
  have cd: "c_div h s = h div s" using hpos assms(1) by (rule c_div_pos)
  from isInSubset_last_le[OF assms(1,2)] assms(3,4,5)
  show ?thesis by (simp add: isInSubset_in_range_def cd)
qed

subsection \<open>The rounds\<close>

lemma bitonicSort_rounds_from_bound:
  "(m', st') \<in> set (bitonicSort_rounds_from m step) \<Longrightarrow> 0 < step \<Longrightarrow>
   1 < m' \<and> 0 < st' \<and> m' * st' \<le> m * step"
proof (induction m step rule: bitonicSort_rounds_from.induct)
  case (1 m step)
  show ?case
  proof (cases "m > 1")
    case False
    then show ?thesis using "1.prems" by (subst (asm) bitonicSort_rounds_from.simps) simp
  next
    case True
    from "1.prems"(1) True
    consider "(m', st') = (m, step)" | "(m', st') \<in> set (bitonicSort_rounds_from (m div 2) (step * 2))"
      by (subst (asm) bitonicSort_rounds_from.simps) auto
    then show ?thesis
    proof cases
      case 1 then show ?thesis using True "1.prems"(2) by simp
    next
      case 2
      from "1.IH"[OF True 2] "1.prems"(2)
      have h: "1 < m'" "0 < st'" "m' * st' \<le> m div 2 * (step * 2)" by simp_all
      have "m div 2 * (step * 2) \<le> m * step"
      proof -
        have "m div 2 * 2 \<le> m" by simp
        then have "m div 2 * 2 * step \<le> m * step" by (rule mult_le_mono1)
        then show ?thesis by (simp add: mult.assoc mult.commute)
      qed
      with h(3) have "m' * st' \<le> m * step" by (rule le_trans)
      with h(1,2) show ?thesis by simp
    qed
  qed
qed

lemma bitonicSort_rounds_step:
  assumes "(m, step) \<in> set (bitonicSort_rounds n)"
  shows "0 < step" "0 < (n div 2) div step" "1 < m"
proof -
  from bitonicSort_rounds_from_bound[OF assms[unfolded bitonicSort_rounds_def] zero_less_one]
  have h: "1 < m" "0 < step" "m * step \<le> n div 2" by simp_all
  show "0 < step" "1 < m" by fact+
  have "step \<le> m * step" using h(1) by simp
  then have "step \<le> n div 2" using h(3) by (rule le_trans)
  then show "0 < (n div 2) div step" using h(2) by (simp add: div_greater_zero_iff)
qed

lemma bitonicSort_rounds_from_pow2:
  "bitonicSort_rounds_from (2 ^ a) st = map (\<lambda>j. (2 ^ (a - j), st * 2 ^ j)) [0..<a]"
proof (induction a arbitrary: st)
  case 0
  show ?case by (subst bitonicSort_rounds_from.simps) simp
next
  case (Suc a)
  have "1 < 2 * x" if "0 < x" for x :: nat using that by arith
  from this[of "2 ^ a"] have big: "1 < (2::nat) ^ Suc a" by simp
  have "bitonicSort_rounds_from (2 ^ Suc a) st
      = (2 ^ Suc a, st) # bitonicSort_rounds_from (2 ^ Suc a div 2) (st * 2)"
    by (subst bitonicSort_rounds_from.simps) (simp only: big if_True)
  also have "(2::nat) ^ Suc a div 2 = 2 ^ a" by simp
  finally have "bitonicSort_rounds_from (2 ^ Suc a) st
      = (2 ^ Suc a, st) # bitonicSort_rounds_from (2 ^ a) (st * 2)" .
  also have "\<dots> = (2 ^ Suc a, st) # map (\<lambda>j. (2 ^ (a - j), st * 2 * 2 ^ j)) [0..<a]"
    by (simp only: Suc.IH)
  also have "\<dots> = map (\<lambda>j. (2 ^ (Suc a - j), st * 2 ^ j)) [0..<Suc a]"
    by (simp add: upt_conv_Cons map_Suc_upt[symmetric] del: upt_Suc)
  finally show ?case .
qed

lemma bitonicSort_rounds_pow2:
  "bitonicSort_rounds (2 ^ Suc q) = map (\<lambda>j. (2 ^ (q - j), 2 ^ j)) [0..<q]"
  by (simp add: bitonicSort_rounds_def bitonicSort_rounds_from_pow2)


section \<open>Properties of the phases\<close>

subsection \<open>Buffers and messages\<close>

lemma those_eq_Some_iff: "those xs = Some ys \<longleftrightarrow> xs = map Some ys"
proof (induction xs arbitrary: ys)
  case Nil
  show ?case by auto
next
  case (Cons x xs)
  show ?case
  proof (cases x)
    case None
    then show ?thesis by auto
  next
    case (Some y)
    show ?thesis
    proof (cases "those xs")
      case None
      then have "\<And>zs. xs \<noteq> map Some zs" using Cons.IH by auto
      then show ?thesis using None Some by (cases ys) auto
    next
      case (Some zs)
      then have "xs = map Some zs" using Cons.IH by simp
      then show ?thesis using Some \<open>x = Some y\<close> by (cases ys) (auto simp: Cons.IH)
    qed
  qed
qed

lemma those_map_Some:
  assumes "\<And>x. x \<in> set xs \<Longrightarrow> f x = Some (g x)"
  shows "those (map f xs) = Some (map g xs)"
  using assms by (simp add: those_eq_Some_iff)

lemma slice_Some: "offset + cnt \<le> length buf \<Longrightarrow> slice buf offset cnt = Some (take cnt (drop offset buf))"
  by (simp add: slice_def)

lemma store_Some:
  "offset + length msg \<le> length buf \<Longrightarrow>
   store buf offset msg = Some (take offset buf @ msg @ drop (offset + length msg) buf)"
  by (simp add: store_def)

lemma store_length: "store buf offset msg = Some buf' \<Longrightarrow> length buf' = length buf"
  by (auto simp: store_def split: if_splits)

subsection \<open>One phase\<close>

lemma node_step_idle: "prog rank = idle \<Longrightarrow> node_step prog w rank = Some (w ! rank)"
  by (simp add: node_step_def idle_def)

lemma exchange_Some:
  assumes "sends_matched prog w"
    and "\<And>r. r < length w \<Longrightarrow> node_step prog w r = Some (f r)"
  shows "exchange prog w = Some (map f [0..<length w])"
proof -
  have "those (map (node_step prog w) [0..<length w]) = Some (map f [0..<length w])"
    by (rule those_map_Some) (simp add: assms(2))
  then show ?thesis using assms(1) by (simp add: exchange_def)
qed

lemma sends_matched_iff:
  "sends_matched prog w \<longleftrightarrow>
     (\<forall>r<length w.
        (case send_op (prog r) of
           None \<Rightarrow> True
         | Some (offset, cnt, d) \<Rightarrow> d < length w \<and> r \<in> set (map (snd \<circ> snd) (recv_ops (prog d))))
        \<and> distinct (map (snd \<circ> snd) (recv_ops (prog r))))"
  by (auto simp: sends_matched_def list_all_iff split: option.splits)

lemma sends_matched_local:
  assumes "\<And>r. r < length w \<Longrightarrow> send_op (prog r) = None \<and> recv_ops (prog r) = []"
  shows "sends_matched prog w"
  using assms by (simp add: sends_matched_iff)

subsection \<open>One round of bitonicSort\<close>

lemma strided_disjoint:
  fixes m2 :: nat
  assumes "0 < m2" "master + t * (2 * m2) = master + m2 + t' * (2 * m2)"
  shows False
proof -
  have "m2 * (2 * t) = m2 * (1 + 2 * t')" using assms(2) by (simp add: algebra_simps)
  then have "2 * t = 1 + 2 * t' \<or> m2 = 0" by (simp only: mult_cancel1)
  then show False using assms(1) by arith
qed

lemma strided_less:
  fixes m :: nat
  assumes "0 < m" "t < step"
  shows "t * m < step * m" "t * m + m \<le> step * m"
proof -
  show "t * m < step * m" using assms by simp
  have "Suc t \<le> step" using assms(2) by simp
  then have "Suc t * m \<le> step * m" by (rule mult_le_mono1)
  then show "t * m + m \<le> step * m" by (simp add: add.commute)
qed

lemma sender_in_group:
  assumes "k div 2 = m * step" "0 < m" "t < step"
  shows "in_group k master (master + t * m)"
  using strided_less(1)[OF assms(2,3)] assms(1) by (simp add: in_group_def mult.commute)

lemma receiver_in_group:
  assumes "k div 2 = m * step" "m = 2 * m2" "0 < m2" "t < step"
  shows "in_group k master (master + m2 + t * m)"
proof -
  have "0 < m" using assms(2,3) by simp
  from strided_less(2)[OF this assms(4)] have "t * m + m \<le> m * step" by (simp add: mult.commute)
  moreover have "m2 < m" using assms(2,3) by simp
  ultimately have "m2 + t * m < m * step" by arith
  then show ?thesis using assms(1) by (simp add: in_group_def)
qed

text \<open>
  The effect of one round on the buffers, for senders \<open>master + t m\<close> and receivers
  \<open>master + m2 + t m\<close> (\<open>t < step\<close>, \<open>m = 2 m2\<close>, \<open>m step = k / 2\<close>): a sender applies
  compareSwap to its buffer; a receiver first overwrites its cells \<open>[0, m)\<close> with the
  cells \<open>[m, 2 m)\<close> of the buffer of rank \<open>r - m2\<close>; every other buffer is unchanged.
\<close>

lemma round_exchange:
  assumes kh: "k div 2 = m * step" and m2: "m = 2 * m2" "0 < m2"
    and wl: "master + k div 2 \<le> length w"
    and bl: "\<And>r. in_group k master r \<Longrightarrow> m + m \<le> length (w ! r)"
    and S: "\<And>r. S r \<longleftrightarrow> (\<exists>t<step. r = master + t * m)"
    and R: "\<And>r. R r \<longleftrightarrow> (\<exists>t<step. r = master + m2 + t * m)"
  shows "\<exists>w'. exchange (within k master (bitonicSort_round S R m ascending)) w = Some w'
          \<and> length w' = length w
          \<and> (\<forall>r<length w.
                (S r \<longrightarrow> compareSwap (w ! r) m ascending = Some (w' ! r))
              \<and> (R r \<longrightarrow> compareSwap (take m (drop m (w ! (r - m2))) @ drop m (w ! r)) m ascending
                            = Some (w' ! r))
              \<and> (\<not> S r \<and> \<not> R r \<longrightarrow> w' ! r = w ! r))"
proof -
  let ?prog = "within k master (bitonicSort_round S R m ascending)"
  have mpos: "0 < m" and half: "m div 2 = m2" using m2 by simp_all
  have Sg: "in_group k master r" if "S r" for r
    using that sender_in_group[OF kh mpos] by (auto simp: S)
  have Rg: "in_group k master r" if "R r" for r
    using that receiver_in_group[OF kh m2] by (auto simp: R)
  have SR: "\<not> R r" if "S r" for r
  proof
    assume "R r"
    from that obtain t where t: "r = master + t * m" unfolding S by blast
    from \<open>R r\<close> obtain t' where t': "r = master + m2 + t' * m" unfolding R by blast
    have "master + t * (2 * m2) = master + m2 + t' * (2 * m2)"
      using t t' unfolding m2(1) by simp
    from strided_disjoint[OF m2(2) this] show False .
  qed
  have Snext: "R (r + m2)" if "S r" for r
    using that by (auto simp: S R)
  have Rprev: "S (r - m2) \<and> r - m2 + m2 = r" if "R r" for r
    using that by (auto simp: S R)
  have inw: "r < length w" if "in_group k master r" for r
    using that wl by (simp add: in_group_def)
  have pS: "?prog r = \<lparr>send_op = Some (m, m, r + m2), recv_ops = [], local_op = Some (m, ascending)\<rparr>"
    if "S r" for r
    using that Sg[OF that] by (simp add: within_def bitonicSort_round_def half)
  have pR: "?prog r = \<lparr>send_op = None, recv_ops = [(0, m, r - m2)], local_op = Some (m, ascending)\<rparr>"
    if "R r" for r
    using that Rg[OF that] SR[of r] by (auto simp: within_def bitonicSort_round_def half)
  have pI: "?prog r = idle" if "\<not> S r" "\<not> R r" for r
    using that by (simp add: within_def bitonicSort_round_def)
  have matched: "sends_matched ?prog w"
    unfolding sends_matched_iff
  proof (intro allI impI)
    fix r assume "r < length w"
    consider "S r" | "R r" | "\<not> S r" "\<not> R r" by blast
    then show "(case send_op (?prog r) of None \<Rightarrow> True
         | Some (offset, cnt, d) \<Rightarrow> d < length w \<and> r \<in> set (map (snd \<circ> snd) (recv_ops (?prog d))))
        \<and> distinct (map (snd \<circ> snd) (recv_ops (?prog r)))"
    proof cases
      case 1
      have "r + m2 < length w" using inw[OF Rg[OF Snext[OF 1]]] .
      then show ?thesis by (simp add: pS[OF 1] pR[OF Snext[OF 1]])
    next
      case 2 then show ?thesis by (simp add: pR)
    next
      case 3 then show ?thesis by (simp add: pI idle_def)
    qed
  qed
  define f where "f r = (if S r then the (compareSwap (w ! r) m ascending)
       else if R r then the (compareSwap (take m (drop m (w ! (r - m2))) @ drop m (w ! r)) m ascending)
       else w ! r)" for r
  have step: "node_step ?prog w r = Some (f r)" if rl: "r < length w" for r
  proof -
    consider "S r" | "R r" | "\<not> S r" "\<not> R r" by blast
    then show ?thesis
    proof cases
      case 1
      have "m \<le> length (w ! r)" using bl[OF Sg[OF 1]] by simp
      then obtain b where "compareSwap (w ! r) m ascending = Some b"
        by (rule compareSwap_char) blast
      then show ?thesis using 1 by (simp add: node_step_def pS f_def)
    next
      case 2
      let ?s = "r - m2"
      have s: "S ?s" "?s + m2 = r" using Rprev[OF 2] by simp_all
      have sl: "?s < length w" using inw[OF Sg[OF s(1)]] .
      have sb: "m + m \<le> length (w ! ?s)" using bl[OF Sg[OF s(1)]] .
      have rb: "m + m \<le> length (w ! r)" using bl[OF Rg[OF 2]] .
      have msg: "message ?prog w ?s r = Some (take m (drop m (w ! ?s)))"
        using sl s(2) sb by (simp add: message_def pS[OF s(1)] slice_Some)
      have st: "store (w ! r) 0 (take m (drop m (w ! ?s))) =
                Some (take m (drop m (w ! ?s)) @ drop m (w ! r))"
        using sb rb by (subst store_Some) simp_all
      have rcv: "receive_all ?prog w r [(0, m, ?s)] (w ! r) =
                 Some (take m (drop m (w ! ?s)) @ drop m (w ! r))"
        using sb by (simp add: msg st)
      have "m \<le> length (take m (drop m (w ! ?s)) @ drop m (w ! r))" using sb rb by simp
      then obtain b where
        "compareSwap (take m (drop m (w ! ?s)) @ drop m (w ! r)) m ascending = Some b"
        by (rule compareSwap_char) blast
      moreover have "\<not> S r" using 2 SR by blast
      ultimately show ?thesis using 2
        by (simp add: node_step_def pR[OF 2] rcv f_def del: receive_all.simps)
    next
      case 3
      from pI[OF 3] have "node_step ?prog w r = Some (w ! r)" by (rule node_step_idle)
      then show ?thesis using 3 by (simp add: f_def)
    qed
  qed
  have ex: "exchange ?prog w = Some (map f [0..<length w])"
    using matched step by (rule exchange_Some)
  have res: "(S r \<longrightarrow> compareSwap (w ! r) m ascending = Some (map f [0..<length w] ! r))
      \<and> (R r \<longrightarrow> compareSwap (take m (drop m (w ! (r - m2))) @ drop m (w ! r)) m ascending
                    = Some (map f [0..<length w] ! r))
      \<and> (\<not> S r \<and> \<not> R r \<longrightarrow> map f [0..<length w] ! r = w ! r)" if rl: "r < length w" for r
  proof -
    have nth: "map f [0..<length w] ! r = f r" using rl by simp
    consider "S r" | "R r" | "\<not> S r" "\<not> R r" by blast
    then show ?thesis
    proof cases
      case 1
      then show ?thesis using step[OF rl] SR[OF 1] by (simp add: nth node_step_def pS)
    next
      case 2
      have "\<not> S r" using 2 SR by blast
      moreover have "m \<le> length (take m (drop m (w ! (r - m2))) @ drop m (w ! r))"
        using bl[OF Rg[OF 2]] bl[OF Sg[of "r - m2"]] Rprev[OF 2] by simp
      then obtain b where
        "compareSwap (take m (drop m (w ! (r - m2))) @ drop m (w ! r)) m ascending = Some b"
        by (rule compareSwap_char) blast
      ultimately show ?thesis using 2 by (simp add: nth f_def)
    next
      case 3
      then show ?thesis by (simp add: nth f_def)
    qed
  qed
  show ?thesis using ex res by auto
qed

lemma compareSwap_take:
  assumes "compareSwap s n ascending = Some s'" "n \<le> c" "c \<le> length s"
  shows "drop c s' = drop c s" "mset (take c s') = mset (take c s)"
proof -
  have nl: "n \<le> length s" using assms(2,3) by simp
  obtain t where t: "compareSwap s n ascending = Some t" "length t = length s"
    "\<And>j. j < length s \<Longrightarrow> 2 * (n div 2) \<le> j \<Longrightarrow> t ! j = s ! j"
    by (rule compareSwap_char[OF nl, of ascending]) blast
  have ts: "t = s'" using t(1) assms(1) by simp
  show d: "drop c s' = drop c s"
  proof (rule nth_equalityI)
    show "length (drop c s') = length (drop c s)" using t(2) ts by simp
  next
    fix i assume "i < length (drop c s')"
    then have "c + i < length s" using t(2) ts by simp
    moreover have "2 * (n div 2) \<le> c + i" using assms(2) by arith
    ultimately have "s' ! (c + i) = s ! (c + i)" using t(3) ts by simp
    then show "drop c s' ! i = drop c s ! i" using assms(3) t(2) ts by simp
  qed
  have "mset (take c s') + mset (drop c s') = mset (take c s) + mset (drop c s)"
    using compareSwap_mset[OF assms(1)] by (simp flip: mset_append)
  then show "mset (take c s') = mset (take c s)" using d by simp
qed

lemma round_subset_int:
  assumes "k div 2 = m * step" "0 < m" "0 < step"
    and "int (k div 2) \<le> INT_MAX" "int (offset + (k div 2 - m)) \<le> INT_MAX"
  obtains p where "isInSubset (int (k div 2)) (int step) (int offset) = Some (Inr p)"
    "\<And>x. p x \<longleftrightarrow> (\<exists>t<step. x = int (offset + t * m))"
proof -
  let ?h = "int (k div 2)" and ?s = "int step"
  have q: "(k div 2) div step = m" using assms by simp
  have qi: "?h div ?s = int m" using q by (simp flip: zdiv_int)
  have pos: "0 < ?s" "0 < ?h div ?s" "0 < ?h" using assms(1,2,3) qi by simp_all
  have dv: "?s dvd ?h" using assms(1) by simp
  have last: "isInSubset_last ?h ?s = ?h - int m"
    using isInSubset_last_dvd[OF pos(1) dv pos(3)] qi by simp
  have mle: "m \<le> k div 2" using assms(1,3) by simp
  have rng: "isInSubset_in_range ?h ?s (int offset)"
    using assms(4,5) mle
    by (simp add: isInSubset_in_range_def last c_div_pos[OF pos(3,1)] qi INT_MIN_def of_nat_diff)
  obtain p where p: "isInSubset ?h ?s (int offset) = Some (Inr p)"
    "\<And>r. p r \<longleftrightarrow> (\<exists>j::nat. int j * (?h div ?s) < ?h \<and> r = int offset + int j * (?h div ?s))"
    by (rule isInSubset_char[OF pos(1,2) rng]) blast
  have "(int j * int m < ?h) = (j < step)" for j
  proof -
    have "(int j * int m < ?h) = (j * m < m * step)"
      unfolding assms(1) by (simp only: of_nat_mult[symmetric] of_nat_less_iff)
    also have "\<dots> = (j < step)" using assms(2) by (simp add: mult.commute)
    finally show ?thesis .
  qed
  then have 2: "p x \<longleftrightarrow> (\<exists>t<step. x = int (offset + t * m))" for x
    unfolding p(2) qi by simp
  show thesis using that[OF p(1) 2] .
qed

lemma round_subset:
  assumes "k div 2 = m * step" "0 < m" "0 < step"
    and "int (k div 2) \<le> INT_MAX" "int (offset + (k div 2 - m)) \<le> INT_MAX"
  obtains p where "returned (isInSubset (int (k div 2)) (int step) (int offset)) = Some p"
    "\<And>r. p r \<longleftrightarrow> (\<exists>t<step. r = offset + t * m)"
proof -
  obtain P where P: "isInSubset (int (k div 2)) (int step) (int offset) = Some (Inr P)"
    "\<And>x. P x \<longleftrightarrow> (\<exists>t<step. x = int (offset + t * m))"
    by (rule round_subset_int[OF assms]) blast
  have 1: "returned (isInSubset (int (k div 2)) (int step) (int offset)) = Some (\<lambda>rank. P (int rank))"
    by (simp add: returned_def P(1))
  have 2: "P (int r) \<longleftrightarrow> (\<exists>t<step. r = offset + t * m)" for r
    unfolding P(2) by (simp only: of_nat_eq_iff)
  show thesis using that[OF 1 2] .
qed

subsection \<open>The first compare-swap and the gather of bitonicSort\<close>

lemma first_exchange:
  assumes "0 < k div 2" "master < length w" "k \<le> length (w ! master)"
  shows "\<exists>b. compareSwap (w ! master) k ascending = Some b
          \<and> exchange (within k master (bitonicSort_first k master ascending)) w = Some (w[master := b])"
proof -
  let ?prog = "within k master (bitonicSort_first k master ascending)"
  obtain b where b: "compareSwap (w ! master) k ascending = Some b"
    by (rule compareSwap_char[OF assms(3), of ascending]) blast
  have g: "in_group k master master" using assms(1) by (simp add: in_group_def)
  have pm: "?prog master = idle\<lparr>local_op := Some (k, ascending)\<rparr>"
    using g by (simp add: within_def bitonicSort_first_def)
  have po: "?prog r = idle" if "r \<noteq> master" for r
    using that by (simp add: within_def bitonicSort_first_def)
  have matched: "sends_matched ?prog w"
  proof (rule sends_matched_local)
    fix r show "send_op (?prog r) = None \<and> recv_ops (?prog r) = []"
      by (cases "r = master") (simp_all add: pm po idle_def)
  qed
  have step: "node_step ?prog w r = Some ((w[master := b]) ! r)" if "r < length w" for r
  proof (cases "r = master")
    case True
    then show ?thesis using that b by (simp add: node_step_def pm idle_def)
  next
    case False
    from po[OF False] have "node_step ?prog w r = Some (w ! r)" by (rule node_step_idle)
    then show ?thesis using False by simp
  qed
  have "exchange ?prog w = Some (map (\<lambda>r. (w[master := b]) ! r) [0..<length w])"
    using matched step by (rule exchange_Some)
  moreover have "map (\<lambda>r. (w[master := b]) ! r) [0..<length w] = w[master := b]"
    by (rule nth_equalityI) simp_all
  ultimately show ?thesis using b by simp
qed

lemma receive_all_append:
  "receive_all prog w rank (xs @ ys) buf =
     (case receive_all prog w rank xs buf of
        None \<Rightarrow> None
      | Some b \<Rightarrow> receive_all prog w rank ys b)"
  by (induction xs arbitrary: buf) (auto split: option.splits if_splits)

lemma length_concat_pairs:
  "(\<And>x. x \<in> set xs \<Longrightarrow> length (f x) = c) \<Longrightarrow> length (concat (map f xs)) = c * length xs"
  by (induction xs) simp_all

text \<open>The cells that the sub-master holds after receiving from the ranks \<open>1, \<dots>, c - 1\<close> of its group.\<close>

lemma gather_receive:
  assumes "1 \<le> c" "2 * c \<le> length buf"
    and src: "\<And>i. 1 \<le> i \<Longrightarrow> i < c \<Longrightarrow> master + i < length w \<and> 2 \<le> length (w ! (master + i))
                 \<and> send_op (prog (master + i)) = Some (0, 2, master)"
  shows "receive_all prog w master (map (\<lambda>i. (2 * i, 2, master + i)) [1..<c]) buf =
           Some ((take 2 buf @ concat (map (\<lambda>i. take 2 (w ! (master + i))) [1..<c])) @ drop (2 * c) buf)"
  using assms
proof (induction c rule: nat_induct_at_least)
  case base
  then show ?case by simp
next
  case (Suc c)
  define P where "P = take 2 buf @ concat (map (\<lambda>i. take 2 (w ! (master + i))) [1..<c])"
  have lenP: "length P = 2 * c"
  proof -
    have "length (concat (map (\<lambda>i. take 2 (w ! (master + i))) [1..<c])) = 2 * (c - 1)"
      using Suc.prems(2) by (subst length_concat_pairs[where c = 2]) simp_all
    then show ?thesis using Suc.hyps Suc.prems(1) by (simp add: P_def)
  qed
  have IH: "receive_all prog w master (map (\<lambda>i. (2 * i, 2, master + i)) [1..<c]) buf =
           Some (P @ drop (2 * c) buf)"
    using Suc.IH Suc.prems by (simp add: P_def)
  have s: "master + c < length w" "2 \<le> length (w ! (master + c))"
    "send_op (prog (master + c)) = Some (0, 2, master)"
    using Suc.prems(2)[of c] Suc.hyps by simp_all
  define pair where "pair = take 2 (w ! (master + c))"
  have l2: "length pair = 2" using s(2) by (simp add: pair_def)
  have msg: "message prog w (master + c) master = Some pair"
    using s by (simp add: message_def slice_Some pair_def)
  have st: "store (P @ drop (2 * c) buf) (2 * c) pair = Some ((P @ pair) @ drop (2 * Suc c) buf)"
  proof -
    have "2 * c + length pair \<le> length (P @ drop (2 * c) buf)"
      using Suc.prems(1) lenP l2 by simp
    then have "store (P @ drop (2 * c) buf) (2 * c) pair =
       Some (take (2 * c) (P @ drop (2 * c) buf) @ pair
             @ drop (2 * c + length pair) (P @ drop (2 * c) buf))"
      by (rule store_Some)
    moreover have "take (2 * c) (P @ drop (2 * c) buf) = P" using lenP by simp
    moreover have "drop (2 * c + length pair) (P @ drop (2 * c) buf) = drop (2 * Suc c) buf"
      using lenP l2 by (simp add: add.commute)
    ultimately show ?thesis by simp
  qed
  have up: "[1..<Suc c] = [1..<c] @ [c]" using Suc.hyps by simp
  have "receive_all prog w master (map (\<lambda>i. (2 * i, 2, master + i)) [1..<Suc c]) buf
      = receive_all prog w master [(2 * c, 2, master + c)] (P @ drop (2 * c) buf)"
    unfolding up map_append receive_all_append IH by simp
  also have "\<dots> = Some ((P @ pair) @ drop (2 * Suc c) buf)"
    using l2 by (simp add: msg st del: append_assoc)
  also have "P @ pair
      = take 2 buf @ concat (map (\<lambda>i. take 2 (w ! (master + i))) [1..<Suc c])"
    unfolding up by (simp add: P_def pair_def)
  finally show ?case .
qed

lemma gather_exchange:
  assumes h: "0 < k div 2" and wl: "master + k div 2 \<le> length w"
    and bl: "\<And>r. in_group k master r \<Longrightarrow> 2 * (k div 2) \<le> length (w ! r)"
  shows "exchange (within k master (bitonicSort_gather k master)) w =
           Some (w[master := (take 2 (w ! master)
                     @ concat (map (\<lambda>i. take 2 (w ! (master + i))) [1..<k div 2]))
                     @ drop (2 * (k div 2)) (w ! master)])"
proof -
  let ?h = "k div 2"
  let ?prog = "within k master (bitonicSort_gather k master)"
  let ?F = "(take 2 (w ! master) @ concat (map (\<lambda>i. take 2 (w ! (master + i))) [1..<?h]))
            @ drop (2 * ?h) (w ! master)"
  have gm: "in_group k master master" using h by (simp add: in_group_def)
  have pm: "?prog master = idle\<lparr>recv_ops := map (\<lambda>i. (2 * i, 2, master + i)) [1..<?h]\<rparr>"
    using gm by (simp add: within_def bitonicSort_gather_def)
  have pg: "?prog r = idle\<lparr>send_op := Some (0, 2, master)\<rparr>"
    if "in_group k master r" "r \<noteq> master" for r
    using that by (simp add: within_def bitonicSort_gather_def)
  have po: "?prog r = idle" if "\<not> in_group k master r" for r
    using that by (simp add: within_def)
  have srcs: "map (snd \<circ> snd) (recv_ops (?prog master)) = map (\<lambda>i. master + i) [1..<?h]"
    by (simp add: pm idle_def comp_def)
  have matched: "sends_matched ?prog w"
    unfolding sends_matched_iff
  proof (intro allI impI)
    fix r assume "r < length w"
    consider "r = master" | "in_group k master r" "r \<noteq> master" | "\<not> in_group k master r" by blast
    then show "(case send_op (?prog r) of None \<Rightarrow> True
         | Some (offset, cnt, d) \<Rightarrow> d < length w \<and> r \<in> set (map (snd \<circ> snd) (recv_ops (?prog d))))
        \<and> distinct (map (snd \<circ> snd) (recv_ops (?prog r)))"
    proof cases
      case 1
      have "distinct (map (\<lambda>i. master + i) [1..<?h])" by (simp add: distinct_map inj_on_def)
      then show ?thesis unfolding 1 srcs by (simp add: pm idle_def)
    next
      case 2
      then have "1 \<le> r - master" "r - master < ?h" "r = master + (r - master)"
        by (auto simp: in_group_def)
      then have "r \<in> set (map (\<lambda>i. master + i) [1..<?h])"
        by (metis (no_types, lifting) atLeastLessThan_iff image_eqI set_map set_upt)
      moreover have "master < length w" using wl h by simp
      ultimately show ?thesis unfolding srcs[symmetric] by (simp add: pg[OF 2] idle_def)
    next
      case 3 then show ?thesis by (simp add: po idle_def)
    qed
  qed
  have step: "node_step ?prog w r = Some ((w[master := ?F]) ! r)" if rl: "r < length w" for r
  proof (cases "r = master")
    case True
    have "receive_all ?prog w master (map (\<lambda>i. (2 * i, 2, master + i)) [1..<?h]) (w ! master) = Some ?F"
    proof (rule gather_receive)
      show "1 \<le> ?h" using h by simp
      show "2 * ?h \<le> length (w ! master)" using bl[OF gm] .
      fix i assume i: "1 \<le> i" "i < ?h"
      then have g: "in_group k master (master + i)" "master + i \<noteq> master"
        by (simp_all add: in_group_def)
      have "2 \<le> length (w ! (master + i))" using bl[OF g(1)] h by simp
      moreover have "master + i < length w" using i wl by simp
      ultimately show "master + i < length w \<and> 2 \<le> length (w ! (master + i))
          \<and> send_op (?prog (master + i)) = Some (0, 2, master)"
        by (simp add: pg[OF g] idle_def)
    qed
    then show ?thesis using True rl by (simp add: node_step_def pm idle_def)
  next
    case False
    have "node_step ?prog w r = Some (w ! r)"
    proof (cases "in_group k master r")
      case True
      then show ?thesis by (simp add: node_step_def pg[OF True False] idle_def)
    next
      case False
      from po[OF False] show ?thesis by (rule node_step_idle)
    qed
    then show ?thesis using False by simp
  qed
  have "exchange ?prog w = Some (map (\<lambda>r. (w[master := ?F]) ! r) [0..<length w])"
    using matched step by (rule exchange_Some)
  moreover have "map (\<lambda>r. (w[master := ?F]) ! r) [0..<length w] = w[master := ?F]"
    by (rule nth_equalityI) simp_all
  ultimately show ?thesis by simp
qed

subsection \<open>The elements held by a group\<close>

lemma sum_even_odd:
  fixes g :: "nat \<Rightarrow> 'a::comm_monoid_add"
  shows "(\<Sum>t<2 * n. g t) = (\<Sum>t<n. g (2 * t) + g (2 * t + 1))"
  by (induction n) (simp_all add: add.assoc)

lemma mset_concat_pairs:
  "mset (concat (map f xs)) = (\<Sum>x\<leftarrow>xs. mset (f x))"
  by (induction xs) simp_all

lemma round_mset:
  assumes m2: "m = 2 * m2" "0 < m2"
    and wl: "\<And>t. t < step \<Longrightarrow> master + m2 + t * m < length w"
    and bl: "\<And>t. t < step \<Longrightarrow> m + m \<le> length (w ! (master + t * m))
                 \<and> m \<le> length (w ! (master + m2 + t * m))"
    and S: "\<And>r. S r \<longleftrightarrow> (\<exists>t<step. r = master + t * m)"
    and R: "\<And>r. R r \<longleftrightarrow> (\<exists>t<step. r = master + m2 + t * m)"
    and res: "\<And>r. r < length w \<Longrightarrow>
                (S r \<longrightarrow> compareSwap (w ! r) m ascending = Some (w' ! r))
              \<and> (R r \<longrightarrow> compareSwap (take m (drop m (w ! (r - m2))) @ drop m (w ! r)) m ascending
                            = Some (w' ! r))"
  shows "(\<Sum>t<2 * step. mset (take (2 * m2) (w' ! (master + t * m2))))
       = (\<Sum>t<step. mset (take (2 * m) (w ! (master + t * m))))"
proof -
  have "mset (take (2 * m2) (w' ! (master + (2 * t) * m2)))
      + mset (take (2 * m2) (w' ! (master + (2 * t + 1) * m2)))
      = mset (take (2 * m) (w ! (master + t * m)))" if t: "t < step" for t
  proof -
    let ?s = "master + t * m" and ?r = "master + m2 + t * m"
    have e1: "master + (2 * t) * m2 = ?s" and e2: "master + (2 * t + 1) * m2 = ?r"
      using m2(1) by (simp_all add: algebra_simps)
    have rl: "?r < length w" and sl: "?s < length w" using wl[OF t] by simp_all
    have b: "m + m \<le> length (w ! ?s)" "m \<le> length (w ! ?r)" using bl[OF t] by simp_all
    have "S ?s" using t by (auto simp: S)
    then have cs: "compareSwap (w ! ?s) m ascending = Some (w' ! ?s)" using res[OF sl] by simp
    have a: "mset (take m (w' ! ?s)) = mset (take m (w ! ?s))"
      using compareSwap_take(2)[OF cs order_refl] b(1) by simp
    have "R ?r" using t by (auto simp: R)
    moreover have "?r - m2 = ?s" by simp
    ultimately have cr: "compareSwap (take m (drop m (w ! ?s)) @ drop m (w ! ?r)) m ascending
        = Some (w' ! ?r)" using res[OF rl] by simp
    have "mset (take m (w' ! ?r)) = mset (take m (take m (drop m (w ! ?s)) @ drop m (w ! ?r)))"
      using compareSwap_take(2)[OF cr order_refl] b by simp
    also have "\<dots> = mset (take m (drop m (w ! ?s)))" using b(1) by simp
    finally have c: "mset (take m (w' ! ?r)) = mset (take m (drop m (w ! ?s)))" .
    have "take (m + m) (w ! ?s) = take m (w ! ?s) @ take m (drop m (w ! ?s))"
      by (simp add: take_add)
    then have "mset (take (2 * m) (w ! ?s)) = mset (take m (w ! ?s)) + mset (take m (drop m (w ! ?s)))"
      by (simp add: mult_2)
    then show ?thesis unfolding e1 e2 using a c m2(1) by simp
  qed
  then show ?thesis unfolding sum_even_odd by simp
qed

subsection \<open>The loop and the whole of bitonicSort, for a width that is a power of two\<close>

lemma bitonicSort_loop_pow2:
  assumes kh: "k div 2 = 2 ^ a * 2 ^ b"
    and wl: "master + k div 2 \<le> length w"
    and bl: "\<And>r. in_group k master r \<Longrightarrow> 2 * (k div 2) \<le> length (w ! r)"
    and im: "int (master + k div 2) \<le> INT_MAX"
  shows "\<exists>w'. bitonicSort_loop w k master ascending (2 ^ a) (2 ^ b) = Some w'
     \<and> length w' = length w
     \<and> (\<forall>r<length w. length (w' ! r) = length (w ! r))
     \<and> (\<forall>r<length w. \<not> in_group k master r \<longrightarrow> w' ! r = w ! r)
     \<and> (\<Sum>t<k div 2. mset (take 2 (w' ! (master + t))))
         = (\<Sum>t<2 ^ b. mset (take (2 * 2 ^ a) (w ! (master + t * 2 ^ a))))"
  using assms
proof (induction a arbitrary: b w)
  case 0
  have "bitonicSort_loop w k master ascending (2 ^ 0) (2 ^ b) = Some w"
    by (subst bitonicSort_loop.simps) simp
  then show ?case using "0.prems"(1) by simp
next
  case (Suc a)
  define m m2 step where "m = (2::nat) ^ Suc a" and "m2 = (2::nat) ^ a" and "step = (2::nat) ^ b"
  have m2: "m = 2 * m2" "0 < m2" and spos: "0 < step"
    by (simp_all add: m_def m2_def step_def)
  have mpos: "0 < m" "1 < m" and half: "m div 2 = m2" using m2 by simp_all
  have kh: "k div 2 = m * step" using Suc.prems(1) by (simp add: m_def step_def)
  have mle: "m \<le> k div 2" using spos unfolding kh by simp
  have wl: "master + k div 2 \<le> length w" by (rule Suc.prems(2))
  have bl: "m + m \<le> length (w ! r)" if "in_group k master r" for r
    using Suc.prems(3)[OF that] mle by simp
  have im: "int (k div 2) \<le> INT_MAX" "int (master + (k div 2 - m)) \<le> INT_MAX"
    "int (master + m2 + (k div 2 - m)) \<le> INT_MAX"
    using Suc.prems(4) mle m2(1) by simp_all
  obtain S where S: "returned (isInSubset (int (k div 2)) (int step) (int master)) = Some S"
    "\<And>r. S r \<longleftrightarrow> (\<exists>t<step. r = master + t * m)"
    by (rule round_subset[OF kh mpos(1) spos im(1,2)]) blast
  obtain R where R: "returned (isInSubset (int (k div 2)) (int step) (int (master + m2))) = Some R"
    "\<And>r. R r \<longleftrightarrow> (\<exists>t<step. r = master + m2 + t * m)"
    by (rule round_subset[OF kh mpos(1) spos im(1,3)]) blast
  from round_exchange[OF kh m2 wl bl S(2) R(2), of ascending]
  obtain w1 where w1: "exchange (within k master (bitonicSort_round S R m ascending)) w = Some w1"
    "length w1 = length w"
    "\<And>r. r < length w \<Longrightarrow>
        (S r \<longrightarrow> compareSwap (w ! r) m ascending = Some (w1 ! r))
      \<and> (R r \<longrightarrow> compareSwap (take m (drop m (w ! (r - m2))) @ drop m (w ! r)) m ascending
                    = Some (w1 ! r))
      \<and> (\<not> S r \<and> \<not> R r \<longrightarrow> w1 ! r = w ! r)"
    by blast
  have Sg: "in_group k master r" if "S r" for r
    using that sender_in_group[OF kh mpos(1)] by (auto simp: S(2))
  have Rg: "in_group k master r" if "R r" for r
    using that receiver_in_group[OF kh m2] by (auto simp: R(2))
  have Rprev: "S (r - m2)" if "R r" for r
    using that by (auto simp: S(2) R(2))
  have len1: "length (w1 ! r) = length (w ! r)" if rl: "r < length w" for r
  proof (cases "S r \<or> R r")
    case False
    then show ?thesis using w1(3)[OF rl] by simp
  next
    case True
    then have g: "in_group k master r" using Sg Rg by blast
    have a: "m \<le> length (w ! r)" using bl[OF g] by simp
    show ?thesis
    proof (cases "R r")
      case True
      have b: "m + m \<le> length (w ! (r - m2))" using bl[OF Sg[OF Rprev[OF True]]] .
      have "compareSwap (take m (drop m (w ! (r - m2))) @ drop m (w ! r)) m ascending
            = Some (w1 ! r)" using w1(3)[OF rl] True by blast
      from compareSwap_length[OF this] a b show ?thesis by simp
    next
      case False
      then have "S r" using \<open>S r \<or> R r\<close> by blast
      then have "compareSwap (w ! r) m ascending = Some (w1 ! r)" using w1(3)[OF rl] by blast
      then show ?thesis by (rule compareSwap_length)
    qed
  qed
  have unfold: "bitonicSort_loop w k master ascending m step
      = bitonicSort_loop w1 k master ascending m2 (step * 2)"
    using mpos(2) by (subst bitonicSort_loop.simps) (simp add: half S(1) R(1)[unfolded of_nat_add] w1(1))
  have kh1: "k div 2 = 2 ^ a * 2 ^ Suc b" using Suc.prems(1) by simp
  have wl1: "master + k div 2 \<le> length w1" using wl w1(2) by simp
  have inw: "r < length w" if "in_group k master r" for r
    using that wl by (simp add: in_group_def)
  have bl1: "2 * (k div 2) \<le> length (w1 ! r)" if "in_group k master r" for r
    using Suc.prems(3)[OF that] len1[OF inw[OF that]] by simp
  from Suc.IH[OF kh1 wl1 bl1 Suc.prems(4)]
  obtain w' where w': "bitonicSort_loop w1 k master ascending (2 ^ a) (2 ^ Suc b) = Some w'"
    "length w' = length w1"
    "\<And>r. r < length w1 \<Longrightarrow> length (w' ! r) = length (w1 ! r)"
    "\<And>r. r < length w1 \<Longrightarrow> \<not> in_group k master r \<Longrightarrow> w' ! r = w1 ! r"
    "(\<Sum>t<k div 2. mset (take 2 (w' ! (master + t))))
         = (\<Sum>t<2 ^ Suc b. mset (take (2 * 2 ^ a) (w1 ! (master + t * 2 ^ a))))"
    by blast
  have run: "bitonicSort_loop w k master ascending (2 ^ Suc a) (2 ^ b) = Some w'"
    using unfold w'(1) by (simp add: m_def m2_def step_def mult.commute)
  have same: "w' ! r = w ! r" if "r < length w" "\<not> in_group k master r" for r
  proof -
    have "\<not> S r" "\<not> R r" using that(2) Sg Rg by blast+
    then have "w1 ! r = w ! r" using w1(3)[OF that(1)] by simp
    then show ?thesis using w'(4)[of r] that w1(2) by simp
  qed
  have "(\<Sum>t<2 * step. mset (take (2 * m2) (w1 ! (master + t * m2))))
       = (\<Sum>t<step. mset (take (2 * m) (w ! (master + t * m))))"
  proof (rule round_mset[OF m2 _ _ S(2) R(2)])
    fix t assume t: "t < step"
    have g: "in_group k master (master + m2 + t * m)" "in_group k master (master + t * m)"
      using receiver_in_group[OF kh m2 t] sender_in_group[OF kh mpos(1) t] by simp_all
    show "master + m2 + t * m < length w" using inw[OF g(1)] .
    show "m + m \<le> length (w ! (master + t * m)) \<and> m \<le> length (w ! (master + m2 + t * m))"
      using bl[OF g(1)] bl[OF g(2)] by simp
  next
    fix r assume "r < length w"
    from w1(3)[OF this]
    show "(S r \<longrightarrow> compareSwap (w ! r) m ascending = Some (w1 ! r))
      \<and> (R r \<longrightarrow> compareSwap (take m (drop m (w ! (r - m2))) @ drop m (w ! r)) m ascending
                    = Some (w1 ! r))" by blast
  qed
  then have sums: "(\<Sum>t<k div 2. mset (take 2 (w' ! (master + t))))
         = (\<Sum>t<2 ^ b. mset (take (2 * 2 ^ Suc a) (w ! (master + t * 2 ^ Suc a))))"
    using w'(5) by (simp add: m_def m2_def step_def)
  show ?case using run w'(2) w'(3) w1(2) len1 same sums by auto
qed

lemma sum_upt_split:
  fixes g :: "nat \<Rightarrow> 'a::comm_monoid_add"
  assumes "0 < h"
  shows "(\<Sum>t<h. g t) = g 0 + (\<Sum>i\<leftarrow>[1..<h]. g i)"
proof -
  have "(\<Sum>t<h. g t) = (\<Sum>i\<leftarrow>[0..<h]. g i)"
    by (simp add: interv_sum_list_conv_sum_set_nat lessThan_atLeast0)
  also have "[0..<h] = 0 # [1..<h]" using assms by (simp add: upt_conv_Cons)
  finally show ?thesis by simp
qed

lemma bitonicSort_pow2:
  assumes k: "k = 2 ^ Suc q"
    and wl: "master + k div 2 \<le> length w"
    and bl: "\<And>r. in_group k master r \<Longrightarrow> k \<le> length (w ! r)"
    and im: "int (master + k div 2) \<le> INT_MAX"
  shows "\<exists>w'. bitonicSort w k master ascending = Some w'
     \<and> length w' = length w
     \<and> (\<forall>r<length w. length (w' ! r) = length (w ! r))
     \<and> (\<forall>r<length w. \<not> in_group k master r \<longrightarrow> w' ! r = w ! r)
     \<and> take k (w' ! master) = concat (map (\<lambda>t. take 2 (w' ! (master + t))) [0..<k div 2])
     \<and> (\<Sum>t<k div 2. mset (take 2 (w' ! (master + t)))) = mset (take k (w ! master))
     \<and> mset (take k (w' ! master)) = mset (take k (w ! master))"
proof -
  define h where "h = k div 2"
  have h: "h = 2 ^ q" "0 < h" "2 * h = k" by (simp_all add: h_def k)
  have gm: "in_group k master master" using h(2) by (simp add: in_group_def h_def)
  have ml: "master < length w" using wl h(2) by (simp add: h_def)
  have inw: "r < length w" if "in_group k master r" for r
    using that wl by (simp add: in_group_def)
  \<comment> \<open>the first compare-swap\<close>
  from first_exchange[OF h(2)[unfolded h_def] ml bl[OF gm], of ascending]
  obtain b where b: "compareSwap (w ! master) k ascending = Some b"
    "exchange (within k master (bitonicSort_first k master ascending)) w = Some (w[master := b])"
    by blast
  define w1 where "w1 = w[master := b]"
  have lb: "length b = length (w ! master)" using b(1) by (rule compareSwap_length)
  have len1: "length (w1 ! r) = length (w ! r)" if "r < length w" for r
    using that lb by (cases "r = master") (simp_all add: w1_def)
  have w1l: "length w1 = length w" by (simp add: w1_def)
  \<comment> \<open>the rounds\<close>
  have kh: "k div 2 = 2 ^ q * 2 ^ 0" using h(1) by (simp add: h_def)
  have wl1: "master + k div 2 \<le> length w1" using wl by (simp add: w1_def)
  have bl1: "2 * (k div 2) \<le> length (w1 ! r)" if "in_group k master r" for r
    using bl[OF that] len1[OF inw[OF that]] h(3) by (simp add: h_def)
  from bitonicSort_loop_pow2[OF kh wl1 bl1 im, of ascending]
  obtain w2 where w2: "bitonicSort_loop w1 k master ascending (2 ^ q) (2 ^ 0) = Some w2"
    "length w2 = length w1"
    "\<And>r. r < length w1 \<Longrightarrow> length (w2 ! r) = length (w1 ! r)"
    "\<And>r. r < length w1 \<Longrightarrow> \<not> in_group k master r \<Longrightarrow> w2 ! r = w1 ! r"
    "(\<Sum>t<k div 2. mset (take 2 (w2 ! (master + t))))
         = (\<Sum>t<2 ^ 0. mset (take (2 * 2 ^ q) (w1 ! (master + t * 2 ^ q))))"
    by blast
  have loop: "bitonicSort_loop w1 k master ascending (k div 2) 1 = Some w2"
    using w2(1) h(1) by (simp add: h_def)
  have sum2: "(\<Sum>t<h. mset (take 2 (w2 ! (master + t)))) = mset (take k b)"
    using w2(5) h(1,3) ml by (simp add: h_def w1_def)
  \<comment> \<open>the gather\<close>
  have wl2: "master + k div 2 \<le> length w2" using wl1 w2(2) by simp
  have bl2: "2 * (k div 2) \<le> length (w2 ! r)" if "in_group k master r" for r
    using bl1[OF that] w2(3)[of r] inw[OF that] w1l by simp
  define P where "P = take 2 (w2 ! master) @ concat (map (\<lambda>i. take 2 (w2 ! (master + i))) [1..<h])"
  define F where "F = P @ drop (2 * h) (w2 ! master)"
  have g: "exchange (within k master (bitonicSort_gather k master)) w2 = Some (w2[master := F])"
    using gather_exchange[OF h(2)[unfolded h_def] wl2 bl2] by (simp add: F_def P_def h_def)
  define w3 where "w3 = w2[master := F]"
  have run: "bitonicSort w k master ascending = Some w3"
    using loop by (simp add: bitonicSort_def b(2) w1_def[symmetric] g w3_def)
  have two: "length (take 2 (w2 ! (master + i))) = 2" if "i < h" for i
  proof -
    have "in_group k master (master + i)" using that by (simp add: in_group_def h_def)
    from bl2[OF this] h(2) show ?thesis by (simp add: h_def)
  qed
  have lenP: "length P = k"
  proof -
    have "length (concat (map (\<lambda>i. take 2 (w2 ! (master + i))) [1..<h])) = 2 * (h - 1)"
      using two by (subst length_concat_pairs[where c = 2]) simp_all
    then show ?thesis using two[OF h(2)] h(2,3) by (simp add: P_def)
  qed
  have lenF: "length F = length (w2 ! master)"
    using lenP bl2[OF gm] h(3) by (simp add: F_def h_def)
  have m2l: "master < length w2" using ml w2(2) w1l by simp
  have w3m: "w3 ! master = F" using m2l by (simp add: w3_def)
  have w3o: "w3 ! r = w2 ! r" if "r \<noteq> master" for r using that by (simp add: w3_def)
  have takeF: "take k F = P" using lenP by (simp add: F_def)
  have take2F: "take 2 F = take 2 (w2 ! master)" using two[OF h(2)] by (simp add: F_def P_def)
  have cat: "concat (map (\<lambda>t. take 2 (w3 ! (master + t))) [0..<h]) = P"
  proof -
    have up: "[0..<h] = 0 # [1..<h]" using h(2) by (simp add: upt_conv_Cons)
    have tl: "map (\<lambda>t. take 2 (w3 ! (master + t))) [1..<h]
        = map (\<lambda>i. take 2 (w2 ! (master + i))) [1..<h]"
      by (intro map_cong refl) (simp add: w3o)
    have "concat (map (\<lambda>t. take 2 (w3 ! (master + t))) [0..<h])
        = take 2 (w3 ! (master + 0)) @ concat (map (\<lambda>t. take 2 (w3 ! (master + t))) [1..<h])"
      unfolding up by simp
    also have "\<dots> = take 2 F @ concat (map (\<lambda>i. take 2 (w2 ! (master + i))) [1..<h])"
      unfolding tl by (simp add: w3m)
    finally show ?thesis by (simp add: take2F P_def)
  qed
  have msP: "mset P = (\<Sum>t<h. mset (take 2 (w2 ! (master + t))))"
    unfolding sum_upt_split[OF h(2)] by (simp add: P_def mset_concat_pairs)
  have msb: "mset (take k b) = mset (take k (w ! master))"
    using compareSwap_take(2)[OF b(1) order_refl bl[OF gm]] .
  have sum3: "(\<Sum>t<h. mset (take 2 (w3 ! (master + t)))) = mset P"
  proof -
    have "mset (concat (map (\<lambda>t. take 2 (w3 ! (master + t))) [0..<h]))
        = (\<Sum>t<h. mset (take 2 (w3 ! (master + t))))"
      by (simp add: mset_concat_pairs interv_sum_list_conv_sum_set_nat lessThan_atLeast0)
    then show ?thesis unfolding cat by simp
  qed
  have l3: "length w3 = length w" using w2(2) w1l by (simp add: w3_def)
  have len3: "length (w3 ! r) = length (w ! r)" if rl: "r < length w" for r
  proof (cases "r = master")
    case True
    then show ?thesis using lenF w2(3)[of master] len1[OF ml] ml w1l by (simp add: w3m)
  next
    case False
    then show ?thesis using w2(3)[of r] len1[OF rl] rl w1l by (simp add: w3o)
  qed
  have out: "w3 ! r = w ! r" if rl: "r < length w" and ng: "\<not> in_group k master r" for r
  proof -
    have "r \<noteq> master" using ng gm by blast
    then show ?thesis using w2(4)[of r] rl ng w1l by (simp add: w3o w1_def)
  qed
  show ?thesis
    using run l3 len3 out cat takeF sum3 msP sum2 msb w3m by (auto simp: h_def)
qed

subsection \<open>All the groups of one level\<close>

lemma sort_groups_append:
  "sort_groups w k (xs @ ys) =
     (case sort_groups w k xs of None \<Rightarrow> None | Some w' \<Rightarrow> sort_groups w' k ys)"
  by (induction xs arbitrary: w) (auto simp: Let_def split: option.splits)

lemma in_group_iff: "in_group k (g * (k div 2)) r \<longleftrightarrow> g * (k div 2) \<le> r \<and> r < Suc g * (k div 2)"
  by (auto simp: in_group_def)

lemma sort_groups_pow2:
  assumes k: "k = 2 ^ Suc q"
    and fit: "g * (k div 2) \<le> length w"
    and bl: "\<And>r. r < length w \<Longrightarrow> k \<le> length (w ! r)"
    and im: "int (length w) \<le> INT_MAX"
  shows "\<exists>w'. sort_groups w k [0..<g] = Some w'
     \<and> length w' = length w
     \<and> (\<forall>r<length w. length (w' ! r) = length (w ! r))
     \<and> (\<forall>r<length w. g * (k div 2) \<le> r \<longrightarrow> w' ! r = w ! r)
     \<and> (\<forall>i<g. mset (take k (w' ! (i * (k div 2)))) = mset (take k (w ! (i * (k div 2))))
             \<and> take k (w' ! (i * (k div 2)))
                = concat (map (\<lambda>t. take 2 (w' ! (i * (k div 2) + t))) [0..<k div 2]))"
  using fit
proof (induction g)
  case 0
  show ?case by simp
next
  case (Suc g)
  define h where "h = k div 2"
  have hpos: "0 < h" by (simp add: h_def k)
  have fitg: "g * h \<le> length w" using Suc.prems by (simp add: h_def)
  from Suc.IH[OF fitg[unfolded h_def]]
  obtain v where v: "sort_groups w k [0..<g] = Some v" "length v = length w"
    "\<And>r. r < length w \<Longrightarrow> length (v ! r) = length (w ! r)"
    "\<And>r. r < length w \<Longrightarrow> g * h \<le> r \<Longrightarrow> v ! r = w ! r"
    "\<And>i. i < g \<Longrightarrow> mset (take k (v ! (i * h))) = mset (take k (w ! (i * h)))
             \<and> take k (v ! (i * h)) = concat (map (\<lambda>t. take 2 (v ! (i * h + t))) [0..<h])"
    unfolding h_def by blast
  have wl: "g * h + k div 2 \<le> length v" using Suc.prems v(2) by (simp add: h_def)
  have inw: "r < length w" if "in_group k (g * h) r" for r
    using that Suc.prems by (simp add: in_group_def h_def)
  have blv: "k \<le> length (v ! r)" if "in_group k (g * h) r" for r
    using bl[OF inw[OF that]] v(3)[OF inw[OF that]] by simp
  have "int (g * h + k div 2) \<le> int (length w)" using wl v(2) by (simp only: of_nat_le_iff)
  then have img: "int (g * h + k div 2) \<le> INT_MAX" using im by (rule order_trans)
  from bitonicSort_pow2[OF k wl blv img, of "g mod 2 = 0"]
  obtain w' where w': "bitonicSort v k (g * h) (g mod 2 = 0) = Some w'" "length w' = length v"
    "\<And>r. r < length v \<Longrightarrow> length (w' ! r) = length (v ! r)"
    "\<And>r. r < length v \<Longrightarrow> \<not> in_group k (g * h) r \<Longrightarrow> w' ! r = v ! r"
    "take k (w' ! (g * h)) = concat (map (\<lambda>t. take 2 (w' ! (g * h + t))) [0..<k div 2])"
    "mset (take k (w' ! (g * h))) = mset (take k (v ! (g * h)))"
    by blast
  have run: "sort_groups w k [0..<Suc g] = Some w'"
    by (simp add: sort_groups_append v(1) w'(1) h_def[symmetric] Let_def)
  have gl: "g * h < length w" using Suc.prems hpos by (simp add: h_def)
  have low: "w' ! r = v ! r" if "r < g * h" for r
  proof -
    have "\<not> in_group k (g * h) r" using that by (simp add: in_group_def)
    moreover have "r < length v" using that fitg v(2) by simp
    ultimately show ?thesis by (rule w'(4)[rotated])
  qed
  have high: "w' ! r = w ! r" if "r < length w" "Suc g * h \<le> r" for r
  proof -
    have "\<not> in_group k (g * h) r" using that(2) by (simp add: in_group_def h_def)
    then have "w' ! r = v ! r" using w'(4)[of r] that(1) v(2) by simp
    moreover have "g * h \<le> r" using that(2) by simp
    ultimately show ?thesis using v(4)[OF that(1)] by simp
  qed
  have grp: "mset (take k (w' ! (i * h))) = mset (take k (w ! (i * h)))
             \<and> take k (w' ! (i * h)) = concat (map (\<lambda>t. take 2 (w' ! (i * h + t))) [0..<h])"
    if "i < Suc g" for i
  proof (cases "i = g")
    case True
    have "v ! (g * h) = w ! (g * h)" using v(4)[OF gl] by simp
    then show ?thesis using w'(5,6) True by (simp add: h_def)
  next
    case False
    then have ig: "i < g" using that by simp
    have le: "i * h + h \<le> g * h"
    proof -
      have "Suc i * h \<le> g * h" using ig by (intro mult_le_mono1) simp
      then show ?thesis by (simp add: add.commute)
    qed
    have "i * h < g * h" using le hpos by arith
    then have a: "w' ! (i * h) = v ! (i * h)" by (rule low)
    have b: "map (\<lambda>t. take 2 (w' ! (i * h + t))) [0..<h] = map (\<lambda>t. take 2 (v ! (i * h + t))) [0..<h]"
    proof (intro map_cong refl)
      fix t assume "t \<in> set [0..<h]"
      then have "t < h" by simp
      then have "i * h + t < g * h" using le by arith
      then show "take 2 (w' ! (i * h + t)) = take 2 (v ! (i * h + t))" by (simp only: low)
    qed
    show ?thesis unfolding a b by (rule v(5)[OF ig])
  qed
  have len: "length (w' ! r) = length (w ! r)" if "r < length w" for r
    using w'(3)[of r] v(3)[OF that] that v(2) by simp
  have l': "length w' = length w" using w'(2) v(2) by simp
  show ?case
  proof (intro exI[of _ w'] conjI allI impI)
    show "sort_groups w k [0..<Suc g] = Some w'" by (rule run)
    show "length w' = length w" by (rule l')
    show "length (w' ! r) = length (w ! r)" if "r < length w" for r by (rule len[OF that])
    show "w' ! r = w ! r" if "r < length w" "Suc g * (k div 2) \<le> r" for r
      using high[OF that(1)] that(2) by (simp add: h_def)
    show "mset (take k (w' ! (i * (k div 2)))) = mset (take k (w ! (i * (k div 2))))"
      if "i < Suc g" for i using grp[OF that, THEN conjunct1] by (simp only: h_def)
    show "take k (w' ! (i * (k div 2)))
                = concat (map (\<lambda>t. take 2 (w' ! (i * (k div 2) + t))) [0..<k div 2])"
      if "i < Suc g" for i using grp[OF that, THEN conjunct2] by (simp only: h_def)
  qed
qed

lemma returned_Some: "r = Some (Inr p) \<Longrightarrow> returned r = Some (\<lambda>rank. p (int rank))"
  by (simp add: returned_def)

lemma rounds_pow2_shape:
  assumes "(m, step) \<in> set (bitonicSort_rounds (2 ^ Suc q))"
  obtains m2 where "m = 2 * m2" "0 < m2" "0 < step" "(2::nat) ^ Suc q div 2 = m * step"
proof -
  from assms obtain j where j: "j < q" "m = 2 ^ (q - j)" "step = 2 ^ j"
    unfolding bitonicSort_rounds_pow2 by auto
  have "q - j = Suc (q - j - 1)" using j(1) by simp
  then have 1: "m = 2 * 2 ^ (q - j - 1)" using j(2) by (metis power_Suc)
  have "(2::nat) ^ (q - j) * 2 ^ j = 2 ^ q" using j(1) by (simp flip: power_add)
  then have 2: "(2::nat) ^ Suc q div 2 = m * step" using j(2,3) by simp
  show thesis by (rule that[OF 1 _ _ 2]) (simp_all add: j(3))
qed

lemma round_ops:
  assumes kh: "k div 2 = m * step" and m2: "m = 2 * m2" "0 < m2"
    and S: "\<And>r. S r \<longleftrightarrow> (\<exists>t<step. r = master + t * m)"
    and R: "\<And>r. R r \<longleftrightarrow> (\<exists>t<step. r = master + m2 + t * m)"
  shows "S r \<Longrightarrow> in_group k master r \<and> \<not> R r \<and> R (r + m div 2)
           \<and> within k master (bitonicSort_round S R m ascending) r
             = \<lparr>send_op = Some (m, m, r + m div 2), recv_ops = [], local_op = Some (m, ascending)\<rparr>"
    and "R r \<Longrightarrow> in_group k master r \<and> \<not> S r \<and> m div 2 \<le> r \<and> S (r - m div 2)
           \<and> within k master (bitonicSort_round S R m ascending) r
             = \<lparr>send_op = None, recv_ops = [(0, m, r - m div 2)], local_op = Some (m, ascending)\<rparr>"
    and "\<not> S r \<Longrightarrow> \<not> R r \<Longrightarrow> within k master (bitonicSort_round S R m ascending) r = idle"
proof -
  have mpos: "0 < m" and half: "m div 2 = m2" using m2 by simp_all
  have Sg: "in_group k master r" if "S r" for r
    using that sender_in_group[OF kh mpos] by (auto simp: S)
  have Rg: "in_group k master r" if "R r" for r
    using that receiver_in_group[OF kh m2] by (auto simp: R)
  have SR: "\<not> R r" if "S r" for r
  proof
    assume "R r"
    from that obtain t where t: "r = master + t * m" unfolding S by blast
    from \<open>R r\<close> obtain t' where t': "r = master + m2 + t' * m" unfolding R by blast
    have "master + t * (2 * m2) = master + m2 + t' * (2 * m2)"
      using t t' unfolding m2(1) by simp
    from strided_disjoint[OF m2(2) this] show False .
  qed
  show "in_group k master r \<and> \<not> R r \<and> R (r + m div 2)
           \<and> within k master (bitonicSort_round S R m ascending) r
             = \<lparr>send_op = Some (m, m, r + m div 2), recv_ops = [], local_op = Some (m, ascending)\<rparr>"
    if "S r"
  proof -
    have "R (r + m2)" using that by (auto simp: S R)
    then show ?thesis using that Sg[OF that] SR[OF that]
      by (simp add: within_def bitonicSort_round_def half)
  qed
  show "in_group k master r \<and> \<not> S r \<and> m div 2 \<le> r \<and> S (r - m div 2)
           \<and> within k master (bitonicSort_round S R m ascending) r
             = \<lparr>send_op = None, recv_ops = [(0, m, r - m div 2)], local_op = Some (m, ascending)\<rparr>"
    if "R r"
  proof -
    have "S (r - m2)" "m2 \<le> r" using that by (auto simp: S R)
    moreover have "\<not> S r" using that SR by blast
    ultimately show ?thesis using that Rg[OF that]
      by (simp add: within_def bitonicSort_round_def half)
  qed
  show "within k master (bitonicSort_round S R m ascending) r = idle" if "\<not> S r" "\<not> R r"
    using that by (simp add: within_def bitonicSort_round_def)
qed

lemma strided_card:
  fixes m :: nat
  assumes "0 < m" "\<And>r. p r \<longleftrightarrow> (\<exists>t<step. r = a + t * m)"
  shows "card {r. p r} = step"
proof -
  have "{r. p r} = (\<lambda>t. a + t * m) ` {..<step}" by (auto simp: assms(2))
  moreover have "inj_on (\<lambda>t. a + t * m) {..<step}" using assms(1) by (simp add: inj_on_def)
  ultimately show ?thesis by (simp add: card_image)
qed


lemma bitonicSort_loop_rounds:
  "bitonicSort_loop w n master ascending m step
   = over_rounds (round_body n master ascending) (bitonicSort_rounds_from m step) w"
proof (induction w n master ascending m step rule: bitonicSort_loop.induct)
  case (1 w n master ascending m step)
  show ?case
  proof (cases "m > 1")
    case False
    then show ?thesis
      by (subst bitonicSort_loop.simps, subst bitonicSort_rounds_from.simps) simp
  next
    case True
    have rb: "round_body n master ascending (m, step) w =
       (case returned (isInSubset (int (n div 2)) (int step) (int master)) of
           None \<Rightarrow> None
         | Some isASender \<Rightarrow>
            (case returned (isInSubset (int (n div 2)) (int step) (int (master + m div 2))) of
               None \<Rightarrow> None
             | Some isAReceiver \<Rightarrow>
                exchange (within n master
                           (bitonicSort_round isASender isAReceiver m ascending)) w))"
      by (simp add: round_body_def)
    have rs: "bitonicSort_rounds_from m step = (m, step) # bitonicSort_rounds_from (m div 2) (step * 2)"
      using True by (subst bitonicSort_rounds_from.simps) simp
    show ?thesis
      unfolding rs
      using True "1.IH"
      by (subst bitonicSort_loop.simps) (simp add: rb split: option.splits)
  qed
qed


subsection \<open>The run on the test vector\<close>

lemma scatter_world:
  "MPI_Scatter (initial_world 9 shuffled mem) mem = Some
   [[10, 6, 14, 11, 9, 16, 3, 13, 8, 12, 5, 2, 4, 15, 1, 7],
    14 # 11 # map (mem 1) [2..<16],
    9 # 16 # map (mem 2) [2..<16],
    3 # 13 # map (mem 3) [2..<16],
    8 # 12 # map (mem 4) [2..<16],
    5 # 2 # map (mem 5) [2..<16],
    4 # 15 # map (mem 6) [2..<16],
    1 # 7 # map (mem 7) [2..<16],
    mem 0 16 # mem 0 17 # map (mem 8) [2..<16]]"
  by (simp add: MPI_Scatter_def initial_world_def test_vector_def store_def upt_rec Let_def
      eval_nat_numeral)

lemma compareSwap_pair:
  "compareSwap (a # b # xs) 2 ascending = Some (if swap_guard ascending a b then b # a # xs else a # b # xs)"
  by (simp add: compareSwap_def compareSwap_run_def compareSwap_loop.simps swap_cells_def)

lemma after_scatter:
  "\<exists>b8. main_scatter 9 shuffled mem = Some
   [[6, 10, 14, 11, 9, 16, 3, 13, 8, 12, 5, 2, 4, 15, 1, 7],
    14 # 11 # map (mem 1) [2..<16],
    9 # 16 # map (mem 2) [2..<16],
    13 # 3 # map (mem 3) [2..<16],
    8 # 12 # map (mem 4) [2..<16],
    5 # 2 # map (mem 5) [2..<16],
    4 # 15 # map (mem 6) [2..<16],
    7 # 1 # map (mem 7) [2..<16],
    b8]"
proof -
  let ?prog = "\<lambda>rank. idle\<lparr>local_op := Some (2, rank mod 2 = 0)\<rparr>"
  let ?W0 = "[[10, 6, 14, 11, 9, 16, 3, 13, 8, 12, 5, 2, 4, 15, 1, 7],
    14 # 11 # map (mem 1) [2..<16],
    9 # 16 # map (mem 2) [2..<16],
    3 # 13 # map (mem 3) [2..<16],
    8 # 12 # map (mem 4) [2..<16],
    5 # 2 # map (mem 5) [2..<16],
    4 # 15 # map (mem 6) [2..<16],
    1 # 7 # map (mem 7) [2..<16],
    mem 0 16 # mem 0 17 # map (mem 8) [2..<16]]"
  define b8 where "b8 = (if swap_guard True (mem 0 16) (mem 0 17)
      then mem 0 17 # mem 0 16 # map (mem 8) [2..<16]
      else mem 0 16 # mem 0 17 # map (mem 8) [2..<16])"
  let ?W1 = "[[6, 10, 14, 11, 9, 16, 3, 13, 8, 12, 5, 2, 4, 15, 1, 7],
    14 # 11 # map (mem 1) [2..<16],
    9 # 16 # map (mem 2) [2..<16],
    13 # 3 # map (mem 3) [2..<16],
    8 # 12 # map (mem 4) [2..<16],
    5 # 2 # map (mem 5) [2..<16],
    4 # 15 # map (mem 6) [2..<16],
    7 # 1 # map (mem 7) [2..<16],
    b8]"
  have matched: "sends_matched ?prog ?W0"
    by (rule sends_matched_local) (simp add: idle_def)
  have step: "node_step ?prog ?W0 r = Some (?W1 ! r)" if "r < length ?W0" for r
  proof -
    from that have "r = 0 \<or> r = 1 \<or> r = 2 \<or> r = 3 \<or> r = 4 \<or> r = 5 \<or> r = 6 \<or> r = 7 \<or> r = 8"
      by (simp add: less_Suc_eq eval_nat_numeral) 
    then show ?thesis
      by (elim disjE) (simp_all add: node_step_def idle_def compareSwap_pair swap_guard_def b8_def)
  qed
  have "exchange ?prog ?W0 = Some (map (\<lambda>r. ?W1 ! r) [0..<length ?W0])"
    using matched step by (rule exchange_Some)
  moreover have "map (\<lambda>r. ?W1 ! r) [0..<length ?W0] = ?W1"
    by (rule nth_equalityI) simp_all
  ultimately have "main_scatter 9 shuffled mem = Some ?W1"
    by (simp add: main_scatter_def scatter_world)
  then show ?thesis by blast
qed

lemma levels_on_test_vector:
  "map_option (\<lambda>w. w ! 0) (main_loop 16 4
   [[6, 10, 14, 11, 9, 16, 3, 13, 8, 12, 5, 2, 4, 15, 1, 7],
    14 # 11 # map (mem 1) [2..<16],
    9 # 16 # map (mem 2) [2..<16],
    13 # 3 # map (mem 3) [2..<16],
    8 # 12 # map (mem 4) [2..<16],
    5 # 2 # map (mem 5) [2..<16],
    4 # 15 # map (mem 6) [2..<16],
    7 # 1 # map (mem 7) [2..<16],
    b8]) = Some [1, 2, 3, 4, 5, 6, 7, 8, 9, 10, 11, 12, 13, 14, 15, 16]"
  by code_simp


subsection \<open>The scatter, for any number of processes\<close>




subsection \<open>The states of a merge, round by round\<close>

lemma round_holds_pow2:
  assumes kh: "k div 2 = m * step" and m2: "m = 2 * m2" "0 < m2" and spos: "0 < step"
    and wl: "master + k div 2 \<le> length w"
    and bl: "\<And>r. in_group k master r \<Longrightarrow> m + m \<le> length (w ! r)"
    and im: "int (master + k div 2) \<le> INT_MAX"
  shows "\<exists>w1. round_holds k master ascending m step w w1
           \<and> length w1 = length w
           \<and> (\<forall>r<length w. length (w1 ! r) = length (w ! r))"
proof -
  have mpos: "0 < m" and half: "m div 2 = m2" using m2 by simp_all
  have mle: "m \<le> k div 2" using spos unfolding kh by simp
  have imx: "int (k div 2) \<le> INT_MAX" "int (master + (k div 2 - m)) \<le> INT_MAX"
    "int (master + m2 + (k div 2 - m)) \<le> INT_MAX"
    using im mle m2(1) by simp_all
  obtain S where S: "returned (isInSubset (int (k div 2)) (int step) (int master)) = Some S"
    "\<And>r. S r \<longleftrightarrow> (\<exists>t<step. r = master + t * m)"
    by (rule round_subset[OF kh mpos spos imx(1,2)]) blast
  obtain R where R: "returned (isInSubset (int (k div 2)) (int step) (int (master + m2))) = Some R"
    "\<And>r. R r \<longleftrightarrow> (\<exists>t<step. r = master + m2 + t * m)"
    by (rule round_subset[OF kh mpos spos imx(1,3)]) blast
  from round_exchange[OF kh m2 wl bl S(2) R(2), of ascending]
  obtain w1 where w1: "exchange (within k master (bitonicSort_round S R m ascending)) w = Some w1"
    "length w1 = length w"
    "\<And>r. r < length w \<Longrightarrow>
        (S r \<longrightarrow> compareSwap (w ! r) m ascending = Some (w1 ! r))
      \<and> (R r \<longrightarrow> compareSwap (take m (drop m (w ! (r - m2))) @ drop m (w ! r)) m ascending
                    = Some (w1 ! r))
      \<and> (\<not> S r \<and> \<not> R r \<longrightarrow> w1 ! r = w ! r)"
    by blast
  note ops = round_ops[OF kh m2 S(2) R(2), of _ ascending]
  have Sg: "in_group k master r" if "S r" for r using ops(1)[OF that] by blast
  have Rg: "in_group k master r" if "R r" for r using ops(2)[OF that] by blast
  have Rprev: "S (r - m2)" if "R r" for r using ops(2)[OF that] by (simp add: half)
  have len1: "length (w1 ! r) = length (w ! r)" if rl: "r < length w" for r
  proof (cases "S r \<or> R r")
    case False
    then show ?thesis using w1(3)[OF rl] by simp
  next
    case True
    then have g: "in_group k master r" using Sg Rg by blast
    have a: "m \<le> length (w ! r)" using bl[OF g] by simp
    show ?thesis
    proof (cases "R r")
      case True
      have b: "m + m \<le> length (w ! (r - m2))" using bl[OF Sg[OF Rprev[OF True]]] .
      have "compareSwap (take m (drop m (w ! (r - m2))) @ drop m (w ! r)) m ascending
            = Some (w1 ! r)" using w1(3)[OF rl] True by blast
      from compareSwap_length[OF this] a b show ?thesis by simp
    next
      case False
      then have "S r" using \<open>S r \<or> R r\<close> by blast
      then have "compareSwap (w ! r) m ascending = Some (w1 ! r)" using w1(3)[OF rl] by blast
      then show ?thesis by (rule compareSwap_length)
    qed
  qed
  have o1: "\<forall>r. S r \<longrightarrow> within k master (bitonicSort_round S R m ascending) r
                = \<lparr>send_op = Some (m, m, r + m div 2), recv_ops = [],
                   local_op = Some (m, ascending)\<rparr>"
    using ops(1) by blast
  have o2: "\<forall>r. R r \<longrightarrow> within k master (bitonicSort_round S R m ascending) r
                = \<lparr>send_op = None, recv_ops = [(0, m, r - m div 2)],
                   local_op = Some (m, ascending)\<rparr>"
    using ops(2) by blast
  have o3: "\<forall>r. \<not> S r \<and> \<not> R r \<longrightarrow>
                within k master (bitonicSort_round S R m ascending) r = idle"
    using ops(3) by blast
  have eff: "\<forall>r<length w.
                (S r \<longrightarrow> compareSwap (w ! r) m ascending = Some (w1 ! r))
              \<and> (R r \<longrightarrow> compareSwap (take m (drop m (w ! (r - m div 2))) @ drop m (w ! r))
                             m ascending = Some (w1 ! r))
              \<and> (\<not> S r \<and> \<not> R r \<longrightarrow> w1 ! r = w ! r)"
    using w1(3) unfolding half by blast
  have "round_holds k master ascending m step w w1"
    unfolding round_holds_def half
    using S R w1(1) o1[unfolded half] o2[unfolded half] o3 eff[unfolded half] by blast
  then show ?thesis using w1(2) len1 by blast
qed

lemma round_holds_loop:
  assumes "round_holds k master ascending m step w w1" "1 < m"
  shows "bitonicSort_loop w k master ascending m step
       = bitonicSort_loop w1 k master ascending (m div 2) (step * 2)"
proof -
  from assms(1) obtain S R where
    "returned (isInSubset (int (k div 2)) (int step) (int master)) = Some S"
    "returned (isInSubset (int (k div 2)) (int step) (int (master + m div 2))) = Some R"
    "exchange (within k master (bitonicSort_round S R m ascending)) w = Some w1"
    unfolding round_holds_def by blast
  then show ?thesis using assms(2)
    by (subst bitonicSort_loop.simps) (simp del: of_nat_add)
qed

lemma bitonicSort_loop_trace:
  assumes kh: "k div 2 = 2 ^ a * 2 ^ b"
    and wl: "master + k div 2 \<le> length w"
    and bl: "\<And>r. in_group k master r \<Longrightarrow> 2 * (k div 2) \<le> length (w ! r)"
    and im: "int (master + k div 2) \<le> INT_MAX"
  shows "\<exists>ws. length ws = Suc a \<and> ws ! 0 = w
     \<and> bitonicSort_loop w k master ascending (2 ^ a) (2 ^ b) = Some (ws ! a)
     \<and> (\<forall>j<a. round_holds k master ascending (2 ^ (a - j)) (2 ^ (b + j)) (ws ! j) (ws ! Suc j))
     \<and> length (ws ! a) = length w
     \<and> (\<forall>r<length w. length (ws ! a ! r) = length (w ! r))"
  using assms
proof (induction a arbitrary: b w)
  case 0
  have "bitonicSort_loop w k master ascending (2 ^ 0) (2 ^ b) = Some w"
    by (subst bitonicSort_loop.simps) simp
  then have "length [w] = Suc 0 \<and> [w] ! 0 = w
     \<and> bitonicSort_loop w k master ascending (2 ^ 0) (2 ^ b) = Some ([w] ! 0)
     \<and> (\<forall>j<0. round_holds k master ascending (2 ^ (0 - j)) (2 ^ (b + j)) ([w] ! j) ([w] ! Suc j))
     \<and> length ([w] ! 0) = length w
     \<and> (\<forall>r<length w. length ([w] ! 0 ! r) = length (w ! r))" by simp
  then show ?case by blast
next
  case (Suc a)
  define m m2 step where "m = (2::nat) ^ Suc a" and "m2 = (2::nat) ^ a" and "step = (2::nat) ^ b"
  have m2: "m = 2 * m2" "0 < m2" and spos: "0 < step"
    by (simp_all add: m_def m2_def step_def)
  have mpos: "1 < m" and half: "m div 2 = m2" using m2 by simp_all
  have kh: "k div 2 = m * step" using Suc.prems(1) by (simp add: m_def step_def)
  have mle: "m \<le> k div 2" using spos unfolding kh by simp
  have bl: "m + m \<le> length (w ! r)" if "in_group k master r" for r
    using Suc.prems(3)[OF that] mle by simp
  from round_holds_pow2[OF kh m2 spos Suc.prems(2) bl Suc.prems(4), of ascending]
  obtain w1 where w1: "round_holds k master ascending m step w w1" "length w1 = length w"
    "\<And>r. r < length w \<Longrightarrow> length (w1 ! r) = length (w ! r)"
    by blast
  have unfold: "bitonicSort_loop w k master ascending m step
      = bitonicSort_loop w1 k master ascending m2 (step * 2)"
    using round_holds_loop[OF w1(1) mpos] by (simp only: half)
  have kh1: "k div 2 = 2 ^ a * 2 ^ Suc b" using Suc.prems(1) by simp
  have wl1: "master + k div 2 \<le> length w1" using Suc.prems(2) w1(2) by simp
  have inw: "r < length w" if "in_group k master r" for r
    using that Suc.prems(2) by (simp add: in_group_def)
  have bl1: "2 * (k div 2) \<le> length (w1 ! r)" if "in_group k master r" for r
    using Suc.prems(3)[OF that] w1(3)[OF inw[OF that]] by simp
  from Suc.IH[OF kh1 wl1 bl1 Suc.prems(4)]
  obtain ws where ws: "length ws = Suc a" "ws ! 0 = w1"
    "bitonicSort_loop w1 k master ascending (2 ^ a) (2 ^ Suc b) = Some (ws ! a)"
    "\<And>j. j < a \<Longrightarrow> round_holds k master ascending (2 ^ (a - j)) (2 ^ (Suc b + j)) (ws ! j) (ws ! Suc j)"
    "length (ws ! a) = length w1"
    "\<And>r. r < length w1 \<Longrightarrow> length (ws ! a ! r) = length (w1 ! r)"
    by blast
  have run: "bitonicSort_loop w k master ascending (2 ^ Suc a) (2 ^ b) = Some ((w # ws) ! Suc a)"
    using unfold ws(3) by (simp add: m_def m2_def step_def mult.commute)
  have rounds: "round_holds k master ascending (2 ^ (Suc a - j)) (2 ^ (b + j)) ((w # ws) ! j) ((w # ws) ! Suc j)"
    if "j < Suc a" for j
  proof (cases j)
    case 0
    then show ?thesis using w1(1) ws(2) by (simp add: m_def step_def)
  next
    case (Suc j')
    then have "j' < a" using that by simp
    from ws(4)[OF this] show ?thesis by (simp add: Suc)
  qed
  have "length (w # ws) = Suc (Suc a) \<and> (w # ws) ! 0 = w
     \<and> bitonicSort_loop w k master ascending (2 ^ Suc a) (2 ^ b) = Some ((w # ws) ! Suc a)
     \<and> (\<forall>j<Suc a. round_holds k master ascending (2 ^ (Suc a - j)) (2 ^ (b + j)) ((w # ws) ! j) ((w # ws) ! Suc j))
     \<and> length ((w # ws) ! Suc a) = length w
     \<and> (\<forall>r<length w. length ((w # ws) ! Suc a ! r) = length (w ! r))"
    using run rounds ws(1,5,6) w1(2,3) by simp
  then show ?case by blast
qed


section \<open>The claims about compareSwap\<close>

text \<open>
  Claim C2. On a buffer of at least \<open>n\<close> cells compareSwap returns. For every
  \<open>i < n / 2\<close> the cells \<open>i\<close> and \<open>i + n / 2\<close> hold, after the call, their two values
  exchanged when the order of the two elements contradicted the direction (ascending
  requested and element \<open>i\<close> larger, or descending requested and element \<open>i\<close> smaller)
  and their original values otherwise, so that the content of the pair is changed
  exactly when the order contradicted the direction. After the call every pair is
  ordered according to the direction, the cells from \<open>2 (n / 2)\<close> on are untouched, and
  the buffer is a permutation of the input. (On two equal elements, with ascending
  requested, the statements of the swap are executed and leave the buffer as it is: that
  is the subject of claim C7.)
\<close>

theorem compareSwap_pairs:
  assumes "n \<le> length s"
  shows "\<exists>s'. compareSwap s n ascending = Some s'
           \<and> length s' = length s
           \<and> (\<forall>i<n div 2.
                 (s' ! i, s' ! (i + n div 2)) =
                   (if order_contradicts ascending (s ! i) (s ! (i + n div 2))
                    then (s ! (i + n div 2), s ! i) else (s ! i, s ! (i + n div 2)))
               \<and> ((s' ! i, s' ! (i + n div 2)) \<noteq> (s ! i, s ! (i + n div 2))
                    \<longleftrightarrow> order_contradicts ascending (s ! i) (s ! (i + n div 2)))
               \<and> (if ascending then s' ! i \<le> s' ! (i + n div 2) else s' ! (i + n div 2) \<le> s' ! i))
           \<and> (\<forall>j<length s. 2 * (n div 2) \<le> j \<longrightarrow> s' ! j = s ! j)
           \<and> mset s' = mset s"
proof -
  let ?h = "n div 2"
  obtain s' where cs: "compareSwap s n ascending = Some s'"
    and len: "length s' = length s"
    and lo: "\<And>i. i < ?h \<Longrightarrow> s' ! i = fst (pair_result ascending (s ! i) (s ! (i + ?h)))"
    and hi: "\<And>i. i < ?h \<Longrightarrow> s' ! (i + ?h) = snd (pair_result ascending (s ! i) (s ! (i + ?h)))"
    and rest: "\<And>j. j < length s \<Longrightarrow> 2 * ?h \<le> j \<Longrightarrow> s' ! j = s ! j"
    by (rule compareSwap_char[OF assms, of ascending]) blast
  have pairs: "(s' ! i, s' ! (i + ?h)) =
          (if order_contradicts ascending (s ! i) (s ! (i + ?h))
           then (s ! (i + ?h), s ! i) else (s ! i, s ! (i + ?h)))
      \<and> ((s' ! i, s' ! (i + ?h)) \<noteq> (s ! i, s ! (i + ?h))
           \<longleftrightarrow> order_contradicts ascending (s ! i) (s ! (i + ?h)))
      \<and> (if ascending then s' ! i \<le> s' ! (i + ?h) else s' ! (i + ?h) \<le> s' ! i)" if "i < ?h" for i
  proof (intro conjI)
    show "(s' ! i, s' ! (i + ?h)) =
          (if order_contradicts ascending (s ! i) (s ! (i + ?h))
           then (s ! (i + ?h), s ! i) else (s ! i, s ! (i + ?h)))"
      unfolding lo[OF that] hi[OF that]
      by (auto simp: pair_result_def swap_guard_def order_contradicts_def)
    show "(s' ! i, s' ! (i + ?h)) \<noteq> (s ! i, s ! (i + ?h))
           \<longleftrightarrow> order_contradicts ascending (s ! i) (s ! (i + ?h))"
      unfolding lo[OF that] hi[OF that]
      by (auto simp: pair_result_def swap_guard_def order_contradicts_def)
    show "if ascending then s' ! i \<le> s' ! (i + ?h) else s' ! (i + ?h) \<le> s' ! i"
      using pair_result_ordered[of ascending "s ! i" "s ! (i + ?h)"]
      by (simp only: lo[OF that] hi[OF that])
  qed
  have ms: "mset s' = mset s" using cs by (rule compareSwap_mset)
  show ?thesis using cs len pairs rest ms by blast
qed

theorem compareSwap_pairs_witness:
  "\<exists>s'. compareSwap [3, 1, 2, 0, 9] 4 True = Some s'
           \<and> length s' = length [3, 1, 2, 0, 9 :: int]
           \<and> (\<forall>i<4 div 2.
                 (s' ! i, s' ! (i + 4 div 2)) =
                   (if order_contradicts True ([3, 1, 2, 0, 9] ! i) ([3, 1, 2, 0, 9] ! (i + 4 div 2))
                    then ([3, 1, 2, 0, 9] ! (i + 4 div 2), [3, 1, 2, 0, 9] ! i)
                    else ([3, 1, 2, 0, 9] ! i, [3, 1, 2, 0, 9] ! (i + 4 div 2)))
               \<and> ((s' ! i, s' ! (i + 4 div 2)) \<noteq> ([3, 1, 2, 0, 9] ! i, [3, 1, 2, 0, 9] ! (i + 4 div 2))
                    \<longleftrightarrow> order_contradicts True ([3, 1, 2, 0, 9] ! i) ([3, 1, 2, 0, 9] ! (i + 4 div 2)))
               \<and> (if True then s' ! i \<le> s' ! (i + 4 div 2) else s' ! (i + 4 div 2) \<le> s' ! i))
           \<and> (\<forall>j<length [3, 1, 2, 0, 9 :: int]. 2 * (4 div 2) \<le> j \<longrightarrow> s' ! j = [3, 1, 2, 0, 9] ! j)
           \<and> mset s' = mset [3, 1, 2, 0, 9]"
proof -
  have h: "4 \<le> length [3, 1, 2, 0, 9 :: int]" by simp
  show ?thesis by (rule compareSwap_pairs[OF h, of True])
qed

text \<open>
  Claim C7. The claim, like the comment above compareSwap, has the swap for a strictly
  larger first element when ascending is requested, so that a tie never triggers it.
  The code does otherwise: in the buffer \<open>{3, 7, 3, 1}\<close> elements 0 and 2 are equal, and
  the call with ascending requested executes the swap of iteration 0 (besides that of
  iteration 1, where 7 and 1 are out of order). The swap of the tie exchanges two equal
  values: the buffer is what it would be without it.
\<close>

theorem compareSwap_swaps_tie:
  "[3, 7, 3, 1 :: int] ! 0 = [3, 7, 3, 1] ! (0 + 4 div 2)
   \<and> compareSwap_swapped [3, 7, 3, 1] 4 True = Some [0, 1]
   \<and> compareSwap [3, 7, 3, 1] 4 True = Some [3, 1, 3, 7]"
  by (simp add: compareSwap_swapped_def compareSwap_def compareSwap_run_def compareSwap_loop.simps
      swap_guard_def swap_cells_def)

text \<open>
  Claim C8. On a buffer of at least \<open>n\<close> cells, a second call of compareSwap with the
  same direction returns the buffer that the first call returned.
\<close>

theorem compareSwap_idempotent:
  assumes "n \<le> length s"
  shows "\<exists>s'. compareSwap s n ascending = Some s' \<and> compareSwap s' n ascending = Some s'"
proof -
  obtain s' where cs: "compareSwap s n ascending = Some s'"
    by (rule compareSwap_char[OF assms, of ascending]) blast
  from compareSwap_twice[OF assms cs] cs show ?thesis by blast
qed

theorem compareSwap_idempotent_witness:
  "compareSwap [7, 2, 5, 9, 1, 4] 6 True = Some [7, 1, 4, 9, 2, 5]
   \<and> compareSwap [7, 1, 4, 9, 2, 5] 6 True = Some [7, 1, 4, 9, 2, 5]"
proof -
  have h: "6 \<le> length [7, 2, 5, 9, 1, 4 :: int]" by simp
  have v: "compareSwap [7, 2, 5, 9, 1, 4] 6 True = Some [7, 1, 4, 9, 2, 5]"
    by (simp add: compareSwap_def compareSwap_run_def compareSwap_loop.simps
      swap_guard_def swap_cells_def)
  from compareSwap_idempotent[OF h, of True] v show ?thesis by simp
qed
section \<open>The claims about isInSubset\<close>

text \<open>
  Claim C3, amended. For \<open>h \<ge> 1\<close>, \<open>s \<ge> 1\<close> with \<open>h / s \<ge> 1\<close> and every offset \<open>o\<close>,
  negative or not, for which no addition of the loop leaves the range of \<open>int\<close> (the
  offset is at least \<open>INT_MIN\<close>, and neither the rank computed in the last iteration nor
  the counter after it exceeds \<open>INT_MAX\<close>), isInSubset returns a predicate that is true
  of a rank \<open>r\<close> exactly when \<open>r = o + j (h / s)\<close> for some \<open>j \<ge> 0\<close> with
  \<open>j (h / s) < h\<close>. When \<open>s\<close> divides \<open>h\<close> these are exactly the \<open>s\<close> ranks of the
  specification, \<open>r = o + j (h / s)\<close> with \<open>0 \<le> j < s\<close>.
\<close>

theorem isInSubset_members:
  assumes "1 \<le> h" "1 \<le> s" "1 \<le> c_div h s" "isInSubset_in_range h s o'"
  shows "\<exists>p. isInSubset h s o' = Some (Inr p)
          \<and> (\<forall>r. p r \<longleftrightarrow> (\<exists>j::nat. int j * c_div h s < h \<and> r = o' + int j * c_div h s))
          \<and> (s dvd h \<longrightarrow>
                (\<forall>r. p r \<longleftrightarrow> (\<exists>j::nat. int j < s \<and> r = o' + int j * c_div h s))
              \<and> (\<forall>r. p r \<longleftrightarrow> subset_as_specified h s o' r)
              \<and> card {r. p r} = nat s)"
proof -
  let ?q = "h div s"
  have cd: "c_div h s = ?q" using assms(1,2) by (simp add: c_div_pos)
  have pos: "0 < s" "0 < ?q" "0 < h" using assms(1,2,3) by (simp_all add: cd)
  obtain p where p: "isInSubset h s o' = Some (Inr p)"
    "\<And>r. p r \<longleftrightarrow> (\<exists>j::nat. int j * ?q < h \<and> r = o' + int j * ?q)"
    by (rule isInSubset_char[OF pos(1,2) assms(4)]) blast
  have dv: "(\<forall>r. p r \<longleftrightarrow> (\<exists>j::nat. int j < s \<and> r = o' + int j * ?q))
          \<and> (\<forall>r. p r \<longleftrightarrow> subset_as_specified h s o' r)
          \<and> card {r. p r} = nat s" if d: "s dvd h"
  proof -
    have a: "p r \<longleftrightarrow> (\<exists>j::nat. int j < s \<and> r = o' + int j * ?q)" for r
      by (simp add: p(2) strided_dvd_int[OF pos(1) d pos(3)])
    have lt: "(int j < s) = (j < nat s)" for j using pos(1) by auto
    have img: "{r. p r} = (\<lambda>j. o' + int j * ?q) ` {..<nat s}" by (auto simp: a lt)
    have b: "p r \<longleftrightarrow> subset_as_specified h s o' r" for r
      using img by (auto simp: subset_as_specified_def cd lessThan_atLeast0)
    have "inj_on (\<lambda>j. o' + int j * ?q) {..<nat s}" using pos(2) by (simp add: inj_on_def)
    with img have c: "card {r. p r} = nat s" by (simp add: card_image)
    show ?thesis using a b c by blast
  qed
  show ?thesis using p dv unfolding cd by blast
qed

theorem isInSubset_members_witness:
  "\<exists>p. isInSubset 4 2 7 = Some (Inr p)
          \<and> (\<forall>r. p r \<longleftrightarrow> (\<exists>j::nat. int j * c_div 4 2 < 4 \<and> r = 7 + int j * c_div 4 2))
          \<and> (\<forall>r. p r \<longleftrightarrow> (\<exists>j::nat. int j < 2 \<and> r = 7 + int j * c_div 4 2))
          \<and> (\<forall>r. p r \<longleftrightarrow> subset_as_specified 4 2 7 r)
          \<and> card {r. p r} = nat 2"
proof -
  have h: "(1::int) \<le> 4" "(1::int) \<le> 2" "1 \<le> c_div 4 2" "(2::int) dvd 4"
    by (simp_all add: c_div_def)
  have r: "isInSubset_in_range 4 2 7"
    by (simp add: isInSubset_in_range_def isInSubset_last_def c_div_def INT_MIN_def INT_MAX_def)
  from isInSubset_members[OF h(1,2,3) r] h(4) show ?thesis by simp
qed

text \<open>
  Claim C3 as stated fails when the stride does not divide the half-width: with
  \<open>h = 3\<close>, \<open>s = 2\<close> and \<open>o = 0\<close> the predicate is true of rank 2, which is not among the
  two ranks \<open>0, 1\<close> of the specification (the code collects the three ranks \<open>0, 1, 2\<close>).
  It also fails where an addition overflows: with \<open>h = 4\<close>, \<open>s = 2\<close> and \<open>o = INT_MAX\<close>
  the second iteration computes \<open>2 + INT_MAX\<close>, and the call has no defined result.
\<close>

theorem isInSubset_members_counterexample:
  "isInSubset_at 3 2 0 2 = Some (Inr True) \<and> \<not> subset_as_specified 3 2 0 2
   \<and> isInSubset_at 4 2 2147483647 2147483647 = Some (Inl Signed_overflow)"
  by (simp add: isInSubset_at_def isInSubset_def isInSubset_loop.simps subset_as_specified_def
      upt_rec c_div_def is_int_def INT_MIN_def INT_MAX_def)

text \<open>
  Claim C10, amended. isInSubset returns for every \<open>half \<ge> 1\<close> and \<open>1 \<le> step \<le> half\<close>
  for which no addition of the loop leaves the range of \<open>int\<close>. Every call made in the
  rounds of bitonicSort, for a sub-sequence of any size \<open>n\<close>, has \<open>1 \<le> step \<le> half\<close>
  and returns when its additions stay in the range, which they do when
  \<open>master_node + n\<close> does not exceed \<open>INT_MAX\<close>. For \<open>half \<ge> 1\<close> and \<open>step > half\<close>
  the increment is 0 and the call does not return.
\<close>

theorem isInSubset_termination:
  "(1 \<le> step \<and> step \<le> half \<and> isInSubset_in_range half step offset \<longrightarrow>
      (\<exists>p. isInSubset half step offset = Some (Inr p)))
   \<and> (\<forall>(m, st) \<in> set (bitonicSort_rounds n).
         1 \<le> st \<and> st \<le> n div 2
       \<and> (isInSubset_in_range (int (n div 2)) (int st) (int master_node) \<longrightarrow>
            (\<exists>p. isInSubset (int (n div 2)) (int st) (int master_node) = Some (Inr p)))
       \<and> (isInSubset_in_range (int (n div 2)) (int st) (int (master_node + m div 2)) \<longrightarrow>
            (\<exists>p. isInSubset (int (n div 2)) (int st) (int (master_node + m div 2)) = Some (Inr p)))
       \<and> (int (master_node + n) \<le> INT_MAX \<longrightarrow>
            isInSubset_in_range (int (n div 2)) (int st) (int master_node)
          \<and> isInSubset_in_range (int (n div 2)) (int st) (int (master_node + m div 2))))
   \<and> (1 \<le> half \<and> half < step \<and> is_int offset \<longrightarrow> isInSubset half step offset = None)"
proof (intro conjI impI ballI)
  assume a: "1 \<le> step \<and> step \<le> half \<and> isInSubset_in_range half step offset"
  then have p: "0 < step" "0 < half div step" by (simp_all add: pos_imp_zdiv_pos_iff)
  from a have r: "isInSubset_in_range half step offset" by blast
  show "\<exists>p. isInSubset half step offset = Some (Inr p)"
    by (rule isInSubset_char[OF p r]) blast
next
  fix x assume x: "x \<in> set (bitonicSort_rounds n)"
  obtain m st where xe: "x = (m, st)" by (cases x)
  from bitonicSort_rounds_step[OF x[unfolded xe]]
  have pos: "0 < st" "0 < (n div 2) div st" "1 < m" by simp_all
  then have le: "1 \<le> st" "st \<le> n div 2" by (simp_all add: div_greater_zero_iff)
  from bitonicSort_rounds_from_bound[OF x[unfolded xe bitonicSort_rounds_def] zero_less_one]
  have "m * st \<le> n div 2" by simp
  moreover have "m \<le> m * st" using pos(1) by simp
  ultimately have mle: "m \<le> n div 2" by (rule le_trans[rotated])
  let ?h = "int (n div 2)" and ?s = "int st"
  have ipos: "0 < ?s" "0 < ?h div ?s" using pos(1,2) by (simp_all flip: zdiv_int)
  have r1: "\<exists>p. isInSubset ?h ?s (int master_node) = Some (Inr p)"
    if "isInSubset_in_range ?h ?s (int master_node)"
    by (rule isInSubset_char[OF ipos that]) blast
  have r2: "\<exists>p. isInSubset ?h ?s (int (master_node + m div 2)) = Some (Inr p)"
    if "isInSubset_in_range ?h ?s (int (master_node + m div 2))"
    by (rule isInSubset_char[OF ipos that]) blast
  have rng: "isInSubset_in_range ?h ?s (int master_node)
           \<and> isInSubset_in_range ?h ?s (int (master_node + m div 2))"
    if b: "int (master_node + n) \<le> INT_MAX"
  proof -
    have q: "?h div ?s \<le> ?h" using ipos(1) by (simp flip: zdiv_int)
    have n2: "2 * (n div 2) \<le> n" by simp
    have m2: "m div 2 \<le> n div 2" using mle by simp
    have "isInSubset_in_range ?h ?s (int master_node)"
      using b q n2 by (intro isInSubset_in_range_simple[OF ipos]) (simp_all add: INT_MIN_def)
    moreover have "isInSubset_in_range ?h ?s (int (master_node + m div 2))"
      using b q n2 m2 by (intro isInSubset_in_range_simple[OF ipos]) (simp_all add: INT_MIN_def)
    ultimately show ?thesis by blast
  qed
  show "case x of (m, st) \<Rightarrow> 1 \<le> st \<and> st \<le> n div 2
       \<and> (isInSubset_in_range (int (n div 2)) (int st) (int master_node) \<longrightarrow>
            (\<exists>p. isInSubset (int (n div 2)) (int st) (int master_node) = Some (Inr p)))
       \<and> (isInSubset_in_range (int (n div 2)) (int st) (int (master_node + m div 2)) \<longrightarrow>
            (\<exists>p. isInSubset (int (n div 2)) (int st) (int (master_node + m div 2)) = Some (Inr p)))
       \<and> (int (master_node + n) \<le> INT_MAX \<longrightarrow>
            isInSubset_in_range (int (n div 2)) (int st) (int master_node)
          \<and> isInSubset_in_range (int (n div 2)) (int st) (int (master_node + m div 2)))"
    using le r1 r2 rng by (simp add: xe)
next
  assume "1 \<le> half \<and> half < step \<and> is_int offset"
  then show "isInSubset half step offset = None"
    by (intro isInSubset_diverges) simp_all
qed

theorem isInSubset_termination_witness:
  "(\<exists>p. isInSubset 8 4 3 = Some (Inr p))
   \<and> ((2, 4) \<in> set (bitonicSort_rounds 16)
      \<and> isInSubset_in_range (int (16 div 2)) (int 4) (int 8)
      \<and> isInSubset_in_range (int (16 div 2)) (int 4) (int (8 + 2 div 2))
      \<and> (\<exists>p. isInSubset (int (16 div 2)) (int 4) (int 8) = Some (Inr p))
      \<and> (\<exists>p. isInSubset (int (16 div 2)) (int 4) (int (8 + 2 div 2)) = Some (Inr p)))
   \<and> isInSubset 2 3 0 = None"
proof -
  have r: "(2, 4) \<in> set (bitonicSort_rounds 16)"
    by (simp add: bitonicSort_rounds_def bitonicSort_rounds_from.simps)
  have g: "isInSubset_in_range 8 4 3"
    by (simp add: isInSubset_in_range_def isInSubset_last_def c_div_def INT_MIN_def INT_MAX_def)
  have b: "int (8 + 16) \<le> INT_MAX" by (simp add: INT_MAX_def)
  have z: "is_int 0" by (simp add: is_int_def INT_MIN_def INT_MAX_def)
  note T = isInSubset_termination[of 4 8 3 16 8]
  note U = isInSubset_termination[of 3 2 0 16 8]
  note M = bspec[OF T[THEN conjunct2, THEN conjunct1] r, unfolded prod.case]
  have 1: "\<exists>p. isInSubset 8 4 3 = Some (Inr p)"
    using T[THEN conjunct1] g by simp
  have 2: "isInSubset_in_range (int (16 div 2)) (int 4) (int 8)"
    "isInSubset_in_range (int (16 div 2)) (int 4) (int (8 + 2 div 2))"
    using M b by blast+
  have 3: "\<exists>p. isInSubset (int (16 div 2)) (int 4) (int 8) = Some (Inr p)"
    "\<exists>p. isInSubset (int (16 div 2)) (int 4) (int (8 + 2 div 2)) = Some (Inr p)"
    using M 2 by blast+
  have 4: "isInSubset 2 3 0 = None"
    using U[THEN conjunct2, THEN conjunct2] z by simp
  show ?thesis using 1 2 3 4 r by blast
qed

text \<open>
  Claim C10 as stated fails for large arguments: with \<open>half = INT_MAX\<close> and \<open>step = 2\<close>
  the increment is \<open>1073741823\<close>, the counter reaches \<open>2147483646 < half\<close> after two
  additions, and the third addition overflows: the call has no defined result.
\<close>

theorem isInSubset_termination_counterexample:
  "isInSubset_at 2147483647 2 0 0 = Some (Inl Signed_overflow)"
  by (simp add: isInSubset_at_def isInSubset_def isInSubset_loop.simps
      c_div_def is_int_def INT_MIN_def INT_MAX_def)


section \<open>The claims about the merge\<close>

text \<open>
  Claim C4. In every round \<open>(m, step)\<close> of a merge of width \<open>k\<close> (a power of two, as
  all widths of the pipeline are), on ranks that are values of type \<open>int\<close> (the highest
  rank of the group does not exceed \<open>INT_MAX\<close>), the two calls of isInSubset return; the senders and
  the receivers are disjoint sets of \<open>step\<close> ranks each, all in the group of the merge;
  for every sender \<open>r\<close> the rank \<open>r + m / 2\<close> is a receiver, every receiver \<open>r\<close> is
  \<open>s + m / 2\<close> for the sender \<open>s = r - m / 2\<close>, and \<open>r \<mapsto> r + m / 2\<close> is a bijection
  from the senders to the receivers.
\<close>

theorem senders_receivers_paired:
  assumes "k = 2 ^ Suc q" "(m, step) \<in> set (bitonicSort_rounds k)"
    and "int (base + k div 2) \<le> INT_MAX"
  shows "\<exists>S R. isInSubset (int (k div 2)) (int step) (int base) = Some (Inr S)
           \<and> isInSubset (int (k div 2)) (int step) (int (base + m div 2)) = Some (Inr R)
           \<and> (\<forall>r. \<not> (S r \<and> R r))
           \<and> card {r. S r} = step \<and> card {r. R r} = step \<and> 2 * step \<le> k div 2
           \<and> (\<forall>r. S r \<or> R r \<longrightarrow> 0 \<le> r \<and> in_group k base (nat r))
           \<and> (\<forall>r. S r \<longrightarrow> R (r + int (m div 2)))
           \<and> (\<forall>r. R r \<longrightarrow> int (m div 2) \<le> r \<and> S (r - int (m div 2)))
           \<and> bij_betw (\<lambda>r. r + int (m div 2)) {r. S r} {r. R r}"
proof -
  obtain m2 where sh: "m = 2 * m2" "0 < m2" "0 < step" "k div 2 = m * step"
    using rounds_pow2_shape[OF assms(2)[unfolded assms(1)]] assms(1) by metis
  have mpos: "0 < m" and half: "m div 2 = m2" using sh(1,2) by simp_all
  have mle: "m \<le> k div 2" using sh(3) unfolding sh(4) by simp
  have im: "int (k div 2) \<le> INT_MAX" "int (base + (k div 2 - m)) \<le> INT_MAX"
    "int (base + m2 + (k div 2 - m)) \<le> INT_MAX"
    using assms(3) mle sh(1) by simp_all
  obtain S where S: "isInSubset (int (k div 2)) (int step) (int base) = Some (Inr S)"
    "\<And>x. S x \<longleftrightarrow> (\<exists>t<step. x = int (base + t * m))"
    by (rule round_subset_int[OF sh(4) mpos sh(3) im(1,2)]) blast
  obtain R where R: "isInSubset (int (k div 2)) (int step) (int (base + m2)) = Some (Inr R)"
    "\<And>x. R x \<longleftrightarrow> (\<exists>t<step. x = int (base + m2 + t * m))"
    by (rule round_subset_int[OF sh(4) mpos sh(3) im(1,3)]) blast
  have disj: "\<not> (S r \<and> R r)" for r
  proof
    assume "S r \<and> R r"
    then obtain t t' where "r = int (base + t * m)" "r = int (base + m2 + t' * m)"
      unfolding S(2) R(2) by blast
    then have "base + t * (2 * m2) = base + m2 + t' * (2 * m2)"
      unfolding sh(1) by (simp only: of_nat_eq_iff)
    from strided_disjoint[OF sh(2) this] show False .
  qed
  have cS: "card {r. S r} = step"
  proof -
    have "{r. S r} = (\<lambda>t. int (base + t * m)) ` {..<step}" by (auto simp: S(2))
    moreover have "inj_on (\<lambda>t. int (base + t * m)) {..<step}" using mpos by (simp add: inj_on_def)
    ultimately show ?thesis by (simp add: card_image)
  qed
  have cR: "card {r. R r} = step"
  proof -
    have "{r. R r} = (\<lambda>t. int (base + m2 + t * m)) ` {..<step}" by (auto simp: R(2))
    moreover have "inj_on (\<lambda>t. int (base + m2 + t * m)) {..<step}"
      using mpos by (simp add: inj_on_def)
    ultimately show ?thesis by (simp add: card_image)
  qed
  have two: "2 * step \<le> k div 2"
  proof -
    have "2 * step \<le> m * step" using sh(1,2) by simp
    then show ?thesis using sh(4) by simp
  qed
  have grp: "S r \<or> R r \<longrightarrow> 0 \<le> r \<and> in_group k base (nat r)" for r
  proof
    assume "S r \<or> R r"
    then consider t where "t < step" "r = int (base + t * m)"
      | t where "t < step" "r = int (base + m2 + t * m)"
      unfolding S(2) R(2) by blast
    then show "0 \<le> r \<and> in_group k base (nat r)"
    proof cases
      case 1
      have "nat r = base + t * m" "0 \<le> r" unfolding 1(2) by (simp_all only: nat_int of_nat_0_le_iff)
      then show ?thesis using sender_in_group[OF sh(4) mpos 1(1), of base] by simp
    next
      case 2
      have "nat r = base + m2 + t * m" "0 \<le> r" unfolding 2(2) by (simp_all only: nat_int of_nat_0_le_iff)
      then show ?thesis using receiver_in_group[OF sh(4) sh(1,2) 2(1), of base] by simp
    qed
  qed
  have fw: "S r \<longrightarrow> R (r + int (m div 2))" for r
    unfolding S(2) R(2) half by auto
  have bw: "R r \<longrightarrow> int (m div 2) \<le> r \<and> S (r - int (m div 2))" for r
    unfolding S(2) R(2) half by auto
  have bij: "bij_betw (\<lambda>r. r + int (m div 2)) {r. S r} {r. R r}"
    unfolding bij_betw_def
  proof
    show "inj_on (\<lambda>r. r + int (m div 2)) {r. S r}" by (simp add: inj_on_def)
    show "(\<lambda>r. r + int (m div 2)) ` {r. S r} = {r. R r}"
    proof (intro set_eqI iffI)
      fix x assume "x \<in> (\<lambda>r. r + int (m div 2)) ` {r. S r}"
      then show "x \<in> {r. R r}" using fw by auto
    next
      fix x assume "x \<in> {r. R r}"
      then have "S (x - int (m div 2))" using bw by auto
      then have "x = (x - int (m div 2)) + int (m div 2) \<and> x - int (m div 2) \<in> {r. S r}" by simp
      then show "x \<in> (\<lambda>r. r + int (m div 2)) ` {r. S r}" by blast
    qed
  qed
  have "isInSubset (int (k div 2)) (int step) (int (base + m div 2)) = Some (Inr R)"
    using R(1) by (simp only: half)
  then show ?thesis using S(1) disj cS cR two grp fw bw bij by blast
qed

theorem senders_receivers_paired_witness:
  "(16::nat) = 2 ^ Suc 3 \<and> (4, 2) \<in> set (bitonicSort_rounds 16)
   \<and> int (8 + 16 div 2) \<le> INT_MAX
   \<and> (\<exists>S R. isInSubset (int (16 div 2)) (int 2) (int 8) = Some (Inr S)
           \<and> isInSubset (int (16 div 2)) (int 2) (int (8 + 4 div 2)) = Some (Inr R)
           \<and> (\<forall>r. \<not> (S r \<and> R r))
           \<and> card {r. S r} = 2 \<and> card {r. R r} = 2 \<and> 2 * 2 \<le> (16::nat) div 2
           \<and> (\<forall>r. S r \<or> R r \<longrightarrow> 0 \<le> r \<and> in_group 16 8 (nat r))
           \<and> (\<forall>r. S r \<longrightarrow> R (r + int (4 div 2)))
           \<and> (\<forall>r. R r \<longrightarrow> int (4 div 2) \<le> r \<and> S (r - int (4 div 2)))
           \<and> bij_betw (\<lambda>r. r + int (4 div 2)) {r. S r} {r. R r})"
proof -
  have h1: "(16::nat) = 2 ^ Suc 3" by simp
  have h2: "(4, 2) \<in> set (bitonicSort_rounds 16)"
    by (simp add: bitonicSort_rounds_def bitonicSort_rounds_from.simps)
  have h3: "int (8 + 16 div 2) \<le> INT_MAX" by (simp add: INT_MAX_def)
  show ?thesis by (intro conjI h1 h2 h3 senders_receivers_paired[OF h1 h2 h3])
qed

text \<open>
  Claim C5. A merge of width \<open>k\<close> (a power of two), on any state in which the processes
  of the group exist and their buffers hold at least \<open>k\<close> cells, runs through the states
  \<open>ws ! 0, \<dots>, ws ! q\<close> and ends in the state \<open>w'\<close>, where \<open>k = 2 ^ (q + 1)\<close>. The first
  phase, before any round, is compareSwap on the \<open>k\<close> cells of the sub-master alone and
  gives \<open>ws ! 0\<close>. The loop then runs the rounds \<open>j = 0, \<dots>, q - 1\<close> with
  \<open>m = k / 2, k / 4, \<dots>, 2\<close> and takes \<open>ws ! 0\<close> to \<open>ws ! q\<close>; round \<open>j\<close> takes \<open>ws ! j\<close> to
  \<open>ws ! (j + 1)\<close>: a sender \<open>r\<close> sends its \<open>m\<close> cells from offset \<open>m\<close> to rank
  \<open>r + m / 2\<close> and then applies compareSwap to its first \<open>m\<close> cells, a receiver \<open>r\<close>
  receives \<open>m\<close> cells at offset 0 from rank \<open>r - m / 2\<close> and then applies compareSwap to
  its first \<open>m\<close> cells, every other process does nothing, and the buffers after the
  round are accordingly. The gather takes \<open>ws ! q\<close> to \<open>w'\<close>, the state in which
  bitonicSort returns.
\<close>

theorem bitonicSort_protocol:
  assumes "k = 2 ^ Suc q" "master + k div 2 \<le> length w" "int (length w) \<le> INT_MAX"
    "\<forall>r. in_group k master r \<longrightarrow> k \<le> length (w ! r)"
  shows "\<exists>b ws w'.
      compareSwap (w ! master) k ascending = Some b
    \<and> exchange (within k master (bitonicSort_first k master ascending)) w = Some (ws ! 0)
    \<and> ws ! 0 = w[master := b]
    \<and> (\<forall>r. r \<noteq> master \<longrightarrow> within k master (bitonicSort_first k master ascending) r = idle)
    \<and> bitonicSort_rounds k = map (\<lambda>j. (2 ^ (q - j), 2 ^ j)) [0..<q]
    \<and> length ws = Suc q
    \<and> (\<forall>j<q. \<exists>m step S R.
          (m, step) = bitonicSort_rounds k ! j \<and> m = 2 ^ (q - j) \<and> step = 2 ^ j
        \<and> returned (isInSubset (int (k div 2)) (int step) (int master)) = Some S
        \<and> returned (isInSubset (int (k div 2)) (int step) (int (master + m div 2))) = Some R
        \<and> (\<forall>r. S r \<longleftrightarrow> (\<exists>t<step. r = master + t * m))
        \<and> (\<forall>r. R r \<longleftrightarrow> (\<exists>t<step. r = master + m div 2 + t * m))
        \<and> (\<forall>r. S r \<longrightarrow> within k master (bitonicSort_round S R m ascending) r
              = \<lparr>send_op = Some (m, m, r + m div 2), recv_ops = [],
                 local_op = Some (m, ascending)\<rparr>)
        \<and> (\<forall>r. R r \<longrightarrow> within k master (bitonicSort_round S R m ascending) r
              = \<lparr>send_op = None, recv_ops = [(0, m, r - m div 2)],
                 local_op = Some (m, ascending)\<rparr>)
        \<and> (\<forall>r. \<not> S r \<and> \<not> R r \<longrightarrow>
              within k master (bitonicSort_round S R m ascending) r = idle)
        \<and> exchange (within k master (bitonicSort_round S R m ascending)) (ws ! j) = Some (ws ! Suc j)
        \<and> (\<forall>r<length (ws ! j).
              (S r \<longrightarrow> compareSwap (ws ! j ! r) m ascending = Some (ws ! Suc j ! r))
            \<and> (R r \<longrightarrow> compareSwap (take m (drop m (ws ! j ! (r - m div 2))) @ drop m (ws ! j ! r))
                           m ascending = Some (ws ! Suc j ! r))
            \<and> (\<not> S r \<and> \<not> R r \<longrightarrow> ws ! Suc j ! r = ws ! j ! r)))
    \<and> bitonicSort_loop (ws ! 0) k master ascending (k div 2) 1 = Some (ws ! q)
    \<and> exchange (within k master (bitonicSort_gather k master)) (ws ! q) = Some w'
    \<and> bitonicSort w k master ascending = Some w'"
proof -
  define h where "h = k div 2"
  have h: "h = 2 ^ q" "0 < h" "2 * h = k" by (simp_all add: h_def assms(1))
  have gm: "in_group k master master" using h(2) by (simp add: in_group_def h_def)
  have ml: "master < length w" using assms(2) h(2) by (simp add: h_def)
  have bl: "k \<le> length (w ! r)" if "in_group k master r" for r using assms(4) that by blast
  have inw: "r < length w" if "in_group k master r" for r
    using that assms(2) by (simp add: in_group_def)
  have "int (master + k div 2) \<le> int (length w)" using assms(2) by (simp only: of_nat_le_iff)
  then have im: "int (master + k div 2) \<le> INT_MAX" using assms(3) by (rule order_trans)
  from first_exchange[OF h(2)[unfolded h_def] ml bl[OF gm], of ascending]
  obtain b where b: "compareSwap (w ! master) k ascending = Some b"
    "exchange (within k master (bitonicSort_first k master ascending)) w = Some (w[master := b])"
    by blast
  define w1 where "w1 = w[master := b]"
  have lb: "length b = length (w ! master)" using b(1) by (rule compareSwap_length)
  have len1: "length (w1 ! r) = length (w ! r)" if "r < length w" for r
    using that lb by (cases "r = master") (simp_all add: w1_def)
  have w1l: "length w1 = length w" by (simp add: w1_def)
  have idle1: "\<forall>r. r \<noteq> master \<longrightarrow> within k master (bitonicSort_first k master ascending) r = idle"
    by (simp add: within_def bitonicSort_first_def)
  have rounds: "bitonicSort_rounds k = map (\<lambda>j. (2 ^ (q - j), 2 ^ j)) [0..<q]"
    unfolding assms(1) by (rule bitonicSort_rounds_pow2)
  have kh: "k div 2 = 2 ^ q * 2 ^ 0" using h(1) by (simp add: h_def)
  have wl1: "master + k div 2 \<le> length w1" using assms(2) by (simp add: w1_def)
  have bl1: "2 * (k div 2) \<le> length (w1 ! r)" if "in_group k master r" for r
    using bl[OF that] len1[OF inw[OF that]] h(3) by (simp add: h_def)
  from bitonicSort_loop_trace[OF kh wl1 bl1 im, of ascending]
  obtain ws where ws: "length ws = Suc q" "ws ! 0 = w1"
    "bitonicSort_loop w1 k master ascending (2 ^ q) (2 ^ 0) = Some (ws ! q)"
    "\<And>j. j < q \<Longrightarrow> round_holds k master ascending (2 ^ (q - j)) (2 ^ (0 + j)) (ws ! j) (ws ! Suc j)"
    "length (ws ! q) = length w1"
    "\<And>r. r < length w1 \<Longrightarrow> length (ws ! q ! r) = length (w1 ! r)"
    by blast
  have loop: "bitonicSort_loop (ws ! 0) k master ascending (k div 2) 1 = Some (ws ! q)"
    using ws(3) h(1) by (simp add: h_def ws(2))
  have wl2: "master + k div 2 \<le> length (ws ! q)" using wl1 ws(5) by simp
  have bl2: "2 * (k div 2) \<le> length (ws ! q ! r)" if "in_group k master r" for r
    using bl1[OF that] ws(6)[of r] inw[OF that] w1l by simp
  from gather_exchange[OF h(2)[unfolded h_def] wl2 bl2]
  obtain w' where g: "exchange (within k master (bitonicSort_gather k master)) (ws ! q) = Some w'"
    by blast
  have run: "bitonicSort w k master ascending = Some w'"
    using loop g by (simp add: bitonicSort_def b(2) w1_def[symmetric] ws(2))
  have first: "exchange (within k master (bitonicSort_first k master ascending)) w = Some (ws ! 0)"
    "ws ! 0 = w[master := b]"
    using b(2) by (simp_all add: ws(2) w1_def)
  have each: "\<forall>j<q. \<exists>m step S R.
          (m, step) = bitonicSort_rounds k ! j \<and> m = 2 ^ (q - j) \<and> step = 2 ^ j
        \<and> returned (isInSubset (int (k div 2)) (int step) (int master)) = Some S
        \<and> returned (isInSubset (int (k div 2)) (int step) (int (master + m div 2))) = Some R
        \<and> (\<forall>r. S r \<longleftrightarrow> (\<exists>t<step. r = master + t * m))
        \<and> (\<forall>r. R r \<longleftrightarrow> (\<exists>t<step. r = master + m div 2 + t * m))
        \<and> (\<forall>r. S r \<longrightarrow> within k master (bitonicSort_round S R m ascending) r
              = \<lparr>send_op = Some (m, m, r + m div 2), recv_ops = [],
                 local_op = Some (m, ascending)\<rparr>)
        \<and> (\<forall>r. R r \<longrightarrow> within k master (bitonicSort_round S R m ascending) r
              = \<lparr>send_op = None, recv_ops = [(0, m, r - m div 2)],
                 local_op = Some (m, ascending)\<rparr>)
        \<and> (\<forall>r. \<not> S r \<and> \<not> R r \<longrightarrow>
              within k master (bitonicSort_round S R m ascending) r = idle)
        \<and> exchange (within k master (bitonicSort_round S R m ascending)) (ws ! j) = Some (ws ! Suc j)
        \<and> (\<forall>r<length (ws ! j).
              (S r \<longrightarrow> compareSwap (ws ! j ! r) m ascending = Some (ws ! Suc j ! r))
            \<and> (R r \<longrightarrow> compareSwap (take m (drop m (ws ! j ! (r - m div 2))) @ drop m (ws ! j ! r))
                           m ascending = Some (ws ! Suc j ! r))
            \<and> (\<not> S r \<and> \<not> R r \<longrightarrow> ws ! Suc j ! r = ws ! j ! r))"
  proof (intro allI impI)
    fix j assume j: "j < q"
    have nth: "(2 ^ (q - j), 2 ^ j) = bitonicSort_rounds k ! j" using j by (simp add: rounds)
    have rh: "round_holds k master ascending (2 ^ (q - j)) (2 ^ j) (ws ! j) (ws ! Suc j)"
      using ws(4)[OF j] by simp
    show "\<exists>m step S R.
          (m, step) = bitonicSort_rounds k ! j \<and> m = 2 ^ (q - j) \<and> step = 2 ^ j
        \<and> returned (isInSubset (int (k div 2)) (int step) (int master)) = Some S
        \<and> returned (isInSubset (int (k div 2)) (int step) (int (master + m div 2))) = Some R
        \<and> (\<forall>r. S r \<longleftrightarrow> (\<exists>t<step. r = master + t * m))
        \<and> (\<forall>r. R r \<longleftrightarrow> (\<exists>t<step. r = master + m div 2 + t * m))
        \<and> (\<forall>r. S r \<longrightarrow> within k master (bitonicSort_round S R m ascending) r
              = \<lparr>send_op = Some (m, m, r + m div 2), recv_ops = [],
                 local_op = Some (m, ascending)\<rparr>)
        \<and> (\<forall>r. R r \<longrightarrow> within k master (bitonicSort_round S R m ascending) r
              = \<lparr>send_op = None, recv_ops = [(0, m, r - m div 2)],
                 local_op = Some (m, ascending)\<rparr>)
        \<and> (\<forall>r. \<not> S r \<and> \<not> R r \<longrightarrow>
              within k master (bitonicSort_round S R m ascending) r = idle)
        \<and> exchange (within k master (bitonicSort_round S R m ascending)) (ws ! j) = Some (ws ! Suc j)
        \<and> (\<forall>r<length (ws ! j).
              (S r \<longrightarrow> compareSwap (ws ! j ! r) m ascending = Some (ws ! Suc j ! r))
            \<and> (R r \<longrightarrow> compareSwap (take m (drop m (ws ! j ! (r - m div 2))) @ drop m (ws ! j ! r))
                           m ascending = Some (ws ! Suc j ! r))
            \<and> (\<not> S r \<and> \<not> R r \<longrightarrow> ws ! Suc j ! r = ws ! j ! r))"
      apply (rule exI[of _ "2 ^ (q - j)"])
      apply (rule exI[of _ "2 ^ j"])
      apply (simp only: nth[symmetric] simp_thms)
      apply (rule rh[unfolded round_holds_def])
      done
  qed
  show ?thesis
    using b(1) first idle1 rounds ws(1) each loop g run by blast
qed

theorem bitonicSort_protocol_witness:
  "\<exists>b ws w'.
      compareSwap ([[6, 10, 14, 11, 0, 0, 0, 0 :: int], [14, 11, 0, 0, 0, 0, 0, 0], [9, 16, 13, 3, 0, 0, 0, 0], [13, 3, 0, 0, 0, 0, 0, 0], [0, 0, 0, 0, 0, 0, 0, 0]] ! 2) 4 False = Some b
    \<and> exchange (within 4 2 (bitonicSort_first 4 2 False)) [[6, 10, 14, 11, 0, 0, 0, 0 :: int], [14, 11, 0, 0, 0, 0, 0, 0], [9, 16, 13, 3, 0, 0, 0, 0], [13, 3, 0, 0, 0, 0, 0, 0], [0, 0, 0, 0, 0, 0, 0, 0]] = Some (ws ! 0)
    \<and> ws ! 0 = [[6, 10, 14, 11, 0, 0, 0, 0 :: int], [14, 11, 0, 0, 0, 0, 0, 0], [9, 16, 13, 3, 0, 0, 0, 0], [13, 3, 0, 0, 0, 0, 0, 0], [0, 0, 0, 0, 0, 0, 0, 0]][2 := b]
    \<and> (\<forall>r. r \<noteq> 2 \<longrightarrow> within 4 2 (bitonicSort_first 4 2 False) r = idle)
    \<and> bitonicSort_rounds 4 = map (\<lambda>j. (2 ^ (1 - j), 2 ^ j)) [0..<1]
    \<and> length ws = Suc 1
    \<and> (\<forall>j<1. \<exists>m step S R.
          (m, step) = bitonicSort_rounds 4 ! j \<and> m = 2 ^ (1 - j) \<and> step = 2 ^ j
        \<and> returned (isInSubset (int (4 div 2)) (int step) (int 2)) = Some S
        \<and> returned (isInSubset (int (4 div 2)) (int step) (int (2 + m div 2))) = Some R
        \<and> (\<forall>r. S r \<longleftrightarrow> (\<exists>t<step. r = 2 + t * m))
        \<and> (\<forall>r. R r \<longleftrightarrow> (\<exists>t<step. r = 2 + m div 2 + t * m))
        \<and> (\<forall>r. S r \<longrightarrow> within 4 2 (bitonicSort_round S R m False) r
              = \<lparr>send_op = Some (m, m, r + m div 2), recv_ops = [],
                 local_op = Some (m, False)\<rparr>)
        \<and> (\<forall>r. R r \<longrightarrow> within 4 2 (bitonicSort_round S R m False) r
              = \<lparr>send_op = None, recv_ops = [(0, m, r - m div 2)],
                 local_op = Some (m, False)\<rparr>)
        \<and> (\<forall>r. \<not> S r \<and> \<not> R r \<longrightarrow>
              within 4 2 (bitonicSort_round S R m False) r = idle)
        \<and> exchange (within 4 2 (bitonicSort_round S R m False)) (ws ! j) = Some (ws ! Suc j)
        \<and> (\<forall>r<length (ws ! j).
              (S r \<longrightarrow> compareSwap (ws ! j ! r) m False = Some (ws ! Suc j ! r))
            \<and> (R r \<longrightarrow> compareSwap (take m (drop m (ws ! j ! (r - m div 2))) @ drop m (ws ! j ! r))
                           m False = Some (ws ! Suc j ! r))
            \<and> (\<not> S r \<and> \<not> R r \<longrightarrow> ws ! Suc j ! r = ws ! j ! r)))
    \<and> bitonicSort_loop (ws ! 0) 4 2 False (4 div 2) 1 = Some (ws ! 1)
    \<and> exchange (within 4 2 (bitonicSort_gather 4 2)) (ws ! 1) = Some w'
    \<and> bitonicSort [[6, 10, 14, 11, 0, 0, 0, 0 :: int], [14, 11, 0, 0, 0, 0, 0, 0], [9, 16, 13, 3, 0, 0, 0, 0], [13, 3, 0, 0, 0, 0, 0, 0], [0, 0, 0, 0, 0, 0, 0, 0]] 4 2 False = Some w'"
proof -
  have h1: "(4::nat) = 2 ^ Suc 1" by simp
  have h2: "2 + 4 div 2 \<le> length [[6, 10, 14, 11, 0, 0, 0, 0 :: int], [14, 11, 0, 0, 0, 0, 0, 0], [9, 16, 13, 3, 0, 0, 0, 0], [13, 3, 0, 0, 0, 0, 0, 0], [0, 0, 0, 0, 0, 0, 0, 0]]" by simp
  have h3: "int (length [[6, 10, 14, 11, 0, 0, 0, 0 :: int], [14, 11, 0, 0, 0, 0, 0, 0], [9, 16, 13, 3, 0, 0, 0, 0], [13, 3, 0, 0, 0, 0, 0, 0], [0, 0, 0, 0, 0, 0, 0, 0]]) \<le> INT_MAX" by (simp add: INT_MAX_def)
  have h4: "\<forall>r. in_group 4 2 r \<longrightarrow> 4 \<le> length ([[6, 10, 14, 11, 0, 0, 0, 0 :: int], [14, 11, 0, 0, 0, 0, 0, 0], [9, 16, 13, 3, 0, 0, 0, 0], [13, 3, 0, 0, 0, 0, 0, 0], [0, 0, 0, 0, 0, 0, 0, 0]] ! r)"
  proof (intro allI impI)
    fix r :: nat assume "in_group 4 2 r"
    then have "r = 2 \<or> r = 3" by (simp add: in_group_def) arith
    then show "4 \<le> length ([[6, 10, 14, 11, 0, 0, 0, 0 :: int], [14, 11, 0, 0, 0, 0, 0, 0], [9, 16, 13, 3, 0, 0, 0, 0], [13, 3, 0, 0, 0, 0, 0, 0], [0, 0, 0, 0, 0, 0, 0, 0]] ! r)" by (elim disjE) simp_all
  qed
  show ?thesis by (rule bitonicSort_protocol[OF h1 h2 h3 h4])
qed


text \<open>
  Claim C6. A merge of width \<open>k\<close> (a power of two), on any state in which the
  processes of the group exist (their number, like every rank, is a value of type
  \<open>int\<close>) and their buffers hold at least \<open>k\<close> cells, completes;
  the \<open>k\<close> elements assembled at the sub-master after the gather, which are the pairs
  held by the \<open>k / 2\<close> processes of the group in the order of their ranks, are a
  permutation of the \<open>k\<close> elements that the sub-master held before the merge: no
  element is duplicated or dropped by compareSwap, by the rounds or by the gather. The
  buffers outside the group are untouched. The same holds for all the groups of a level
  together: the merges of the groups \<open>0, \<dots>, g - 1\<close> complete, and every group ends
  with a permutation of the elements it started with.
\<close>

theorem merge_preserves_elements:
  assumes "k = 2 ^ Suc q" "int (length w) \<le> INT_MAX"
  shows "(master + k div 2 \<le> length w \<and> (\<forall>r. in_group k master r \<longrightarrow> k \<le> length (w ! r)) \<longrightarrow>
          (\<exists>w'. bitonicSort w k master ascending = Some w'
             \<and> length w' = length w
             \<and> (\<forall>r<length w. length (w' ! r) = length (w ! r))
             \<and> (\<forall>r<length w. \<not> in_group k master r \<longrightarrow> w' ! r = w ! r)
             \<and> take k (w' ! master) = concat (map (\<lambda>t. take 2 (w' ! (master + t))) [0..<k div 2])
             \<and> (\<Sum>t<k div 2. mset (take 2 (w' ! (master + t)))) = mset (take k (w ! master))
             \<and> mset (take k (w' ! master)) = mset (take k (w ! master))))
       \<and> (g * (k div 2) \<le> length w \<and> (\<forall>r<length w. k \<le> length (w ! r)) \<longrightarrow>
          (\<exists>w'. sort_groups w k [0..<g] = Some w'
             \<and> length w' = length w
             \<and> (\<forall>r<length w. length (w' ! r) = length (w ! r))
             \<and> (\<forall>r<length w. g * (k div 2) \<le> r \<longrightarrow> w' ! r = w ! r)
             \<and> (\<forall>i<g. mset (take k (w' ! (i * (k div 2)))) = mset (take k (w ! (i * (k div 2))))
                     \<and> take k (w' ! (i * (k div 2)))
                        = concat (map (\<lambda>t. take 2 (w' ! (i * (k div 2) + t))) [0..<k div 2]))))"
proof (intro conjI impI)
  assume a: "master + k div 2 \<le> length w \<and> (\<forall>r. in_group k master r \<longrightarrow> k \<le> length (w ! r))"
  then have wl: "master + k div 2 \<le> length w" by blast
  have bl: "k \<le> length (w ! r)" if "in_group k master r" for r using a that by blast
  show "\<exists>w'. bitonicSort w k master ascending = Some w'
             \<and> length w' = length w
             \<and> (\<forall>r<length w. length (w' ! r) = length (w ! r))
             \<and> (\<forall>r<length w. \<not> in_group k master r \<longrightarrow> w' ! r = w ! r)
             \<and> take k (w' ! master) = concat (map (\<lambda>t. take 2 (w' ! (master + t))) [0..<k div 2])
             \<and> (\<Sum>t<k div 2. mset (take 2 (w' ! (master + t)))) = mset (take k (w ! master))
             \<and> mset (take k (w' ! master)) = mset (take k (w ! master))"
  proof (rule bitonicSort_pow2[OF assms(1) wl bl])
    have "int (master + k div 2) \<le> int (length w)" using wl by (simp only: of_nat_le_iff)
    then show "int (master + k div 2) \<le> INT_MAX" using assms(2) by (rule order_trans)
  qed
next
  assume a: "g * (k div 2) \<le> length w \<and> (\<forall>r<length w. k \<le> length (w ! r))"
  then have fit: "g * (k div 2) \<le> length w" by blast
  have bl: "k \<le> length (w ! r)" if "r < length w" for r using a that by blast
  show "\<exists>w'. sort_groups w k [0..<g] = Some w'
             \<and> length w' = length w
             \<and> (\<forall>r<length w. length (w' ! r) = length (w ! r))
             \<and> (\<forall>r<length w. g * (k div 2) \<le> r \<longrightarrow> w' ! r = w ! r)
             \<and> (\<forall>i<g. mset (take k (w' ! (i * (k div 2)))) = mset (take k (w ! (i * (k div 2))))
                     \<and> take k (w' ! (i * (k div 2)))
                        = concat (map (\<lambda>t. take 2 (w' ! (i * (k div 2) + t))) [0..<k div 2]))"
    by (rule sort_groups_pow2[OF assms(1) fit bl assms(2)])
qed

theorem merge_preserves_elements_witness:
  "(\<exists>w'. bitonicSort [[6, 10, 14, 11, 0, 0, 0, 0 :: int], [14, 11, 0, 0, 0, 0, 0, 0], [9, 16, 13, 3, 0, 0, 0, 0], [13, 3, 0, 0, 0, 0, 0, 0], [0, 0, 0, 0, 0, 0, 0, 0]] 4 2 False = Some w'
             \<and> length w' = length [[6, 10, 14, 11, 0, 0, 0, 0 :: int], [14, 11, 0, 0, 0, 0, 0, 0], [9, 16, 13, 3, 0, 0, 0, 0], [13, 3, 0, 0, 0, 0, 0, 0], [0, 0, 0, 0, 0, 0, 0, 0]]
             \<and> (\<forall>r<length [[6, 10, 14, 11, 0, 0, 0, 0 :: int], [14, 11, 0, 0, 0, 0, 0, 0], [9, 16, 13, 3, 0, 0, 0, 0], [13, 3, 0, 0, 0, 0, 0, 0], [0, 0, 0, 0, 0, 0, 0, 0]]. length (w' ! r) = length ([[6, 10, 14, 11, 0, 0, 0, 0 :: int], [14, 11, 0, 0, 0, 0, 0, 0], [9, 16, 13, 3, 0, 0, 0, 0], [13, 3, 0, 0, 0, 0, 0, 0], [0, 0, 0, 0, 0, 0, 0, 0]] ! r))
             \<and> (\<forall>r<length [[6, 10, 14, 11, 0, 0, 0, 0 :: int], [14, 11, 0, 0, 0, 0, 0, 0], [9, 16, 13, 3, 0, 0, 0, 0], [13, 3, 0, 0, 0, 0, 0, 0], [0, 0, 0, 0, 0, 0, 0, 0]]. \<not> in_group 4 2 r \<longrightarrow> w' ! r = [[6, 10, 14, 11, 0, 0, 0, 0 :: int], [14, 11, 0, 0, 0, 0, 0, 0], [9, 16, 13, 3, 0, 0, 0, 0], [13, 3, 0, 0, 0, 0, 0, 0], [0, 0, 0, 0, 0, 0, 0, 0]] ! r)
             \<and> take 4 (w' ! 2) = concat (map (\<lambda>t. take 2 (w' ! (2 + t))) [0..<4 div 2])
             \<and> (\<Sum>t<4 div 2. mset (take 2 (w' ! (2 + t)))) = mset (take 4 ([[6, 10, 14, 11, 0, 0, 0, 0 :: int], [14, 11, 0, 0, 0, 0, 0, 0], [9, 16, 13, 3, 0, 0, 0, 0], [13, 3, 0, 0, 0, 0, 0, 0], [0, 0, 0, 0, 0, 0, 0, 0]] ! 2))
             \<and> mset (take 4 (w' ! 2)) = mset (take 4 ([[6, 10, 14, 11, 0, 0, 0, 0 :: int], [14, 11, 0, 0, 0, 0, 0, 0], [9, 16, 13, 3, 0, 0, 0, 0], [13, 3, 0, 0, 0, 0, 0, 0], [0, 0, 0, 0, 0, 0, 0, 0]] ! 2)))
   \<and> (\<exists>w'. sort_groups [[6, 10, 14, 11, 0, 0, 0, 0 :: int], [14, 11, 0, 0, 0, 0, 0, 0], [9, 16, 13, 3, 0, 0, 0, 0], [13, 3, 0, 0, 0, 0, 0, 0], [0, 0, 0, 0, 0, 0, 0, 0]] 4 [0..<2] = Some w'
             \<and> length w' = length [[6, 10, 14, 11, 0, 0, 0, 0 :: int], [14, 11, 0, 0, 0, 0, 0, 0], [9, 16, 13, 3, 0, 0, 0, 0], [13, 3, 0, 0, 0, 0, 0, 0], [0, 0, 0, 0, 0, 0, 0, 0]]
             \<and> (\<forall>r<length [[6, 10, 14, 11, 0, 0, 0, 0 :: int], [14, 11, 0, 0, 0, 0, 0, 0], [9, 16, 13, 3, 0, 0, 0, 0], [13, 3, 0, 0, 0, 0, 0, 0], [0, 0, 0, 0, 0, 0, 0, 0]]. length (w' ! r) = length ([[6, 10, 14, 11, 0, 0, 0, 0 :: int], [14, 11, 0, 0, 0, 0, 0, 0], [9, 16, 13, 3, 0, 0, 0, 0], [13, 3, 0, 0, 0, 0, 0, 0], [0, 0, 0, 0, 0, 0, 0, 0]] ! r))
             \<and> (\<forall>r<length [[6, 10, 14, 11, 0, 0, 0, 0 :: int], [14, 11, 0, 0, 0, 0, 0, 0], [9, 16, 13, 3, 0, 0, 0, 0], [13, 3, 0, 0, 0, 0, 0, 0], [0, 0, 0, 0, 0, 0, 0, 0]]. 2 * (4 div 2) \<le> r \<longrightarrow> w' ! r = [[6, 10, 14, 11, 0, 0, 0, 0 :: int], [14, 11, 0, 0, 0, 0, 0, 0], [9, 16, 13, 3, 0, 0, 0, 0], [13, 3, 0, 0, 0, 0, 0, 0], [0, 0, 0, 0, 0, 0, 0, 0]] ! r)
             \<and> (\<forall>i<2. mset (take 4 (w' ! (i * (4 div 2)))) = mset (take 4 ([[6, 10, 14, 11, 0, 0, 0, 0 :: int], [14, 11, 0, 0, 0, 0, 0, 0], [9, 16, 13, 3, 0, 0, 0, 0], [13, 3, 0, 0, 0, 0, 0, 0], [0, 0, 0, 0, 0, 0, 0, 0]] ! (i * (4 div 2))))
                     \<and> take 4 (w' ! (i * (4 div 2)))
                        = concat (map (\<lambda>t. take 2 (w' ! (i * (4 div 2) + t))) [0..<4 div 2])))"
proof -
  have h1: "(4::nat) = 2 ^ Suc 1" by simp
  have h2: "2 + 4 div 2 \<le> length [[6, 10, 14, 11, 0, 0, 0, 0 :: int], [14, 11, 0, 0, 0, 0, 0, 0], [9, 16, 13, 3, 0, 0, 0, 0], [13, 3, 0, 0, 0, 0, 0, 0], [0, 0, 0, 0, 0, 0, 0, 0]]
      \<and> (\<forall>r. in_group 4 2 r \<longrightarrow> 4 \<le> length ([[6, 10, 14, 11, 0, 0, 0, 0 :: int], [14, 11, 0, 0, 0, 0, 0, 0], [9, 16, 13, 3, 0, 0, 0, 0], [13, 3, 0, 0, 0, 0, 0, 0], [0, 0, 0, 0, 0, 0, 0, 0]] ! r))"
  proof (intro conjI allI impI)
    show "2 + 4 div 2 \<le> length [[6, 10, 14, 11, 0, 0, 0, 0 :: int], [14, 11, 0, 0, 0, 0, 0, 0], [9, 16, 13, 3, 0, 0, 0, 0], [13, 3, 0, 0, 0, 0, 0, 0], [0, 0, 0, 0, 0, 0, 0, 0]]" by simp
    fix r :: nat assume "in_group 4 2 r"
    then have "r = 2 \<or> r = 3" by (simp add: in_group_def) arith
    then show "4 \<le> length ([[6, 10, 14, 11, 0, 0, 0, 0 :: int], [14, 11, 0, 0, 0, 0, 0, 0], [9, 16, 13, 3, 0, 0, 0, 0], [13, 3, 0, 0, 0, 0, 0, 0], [0, 0, 0, 0, 0, 0, 0, 0]] ! r)" by (elim disjE) simp_all
  qed
  have h3: "2 * (4 div 2) \<le> length [[6, 10, 14, 11, 0, 0, 0, 0 :: int], [14, 11, 0, 0, 0, 0, 0, 0], [9, 16, 13, 3, 0, 0, 0, 0], [13, 3, 0, 0, 0, 0, 0, 0], [0, 0, 0, 0, 0, 0, 0, 0]]
      \<and> (\<forall>r<length [[6, 10, 14, 11, 0, 0, 0, 0 :: int], [14, 11, 0, 0, 0, 0, 0, 0], [9, 16, 13, 3, 0, 0, 0, 0], [13, 3, 0, 0, 0, 0, 0, 0], [0, 0, 0, 0, 0, 0, 0, 0]]. 4 \<le> length ([[6, 10, 14, 11, 0, 0, 0, 0 :: int], [14, 11, 0, 0, 0, 0, 0, 0], [9, 16, 13, 3, 0, 0, 0, 0], [13, 3, 0, 0, 0, 0, 0, 0], [0, 0, 0, 0, 0, 0, 0, 0]] ! r))"
  proof (intro conjI allI impI)
    show "2 * (4 div 2) \<le> length [[6, 10, 14, 11, 0, 0, 0, 0 :: int], [14, 11, 0, 0, 0, 0, 0, 0], [9, 16, 13, 3, 0, 0, 0, 0], [13, 3, 0, 0, 0, 0, 0, 0], [0, 0, 0, 0, 0, 0, 0, 0]]" by simp
    fix r :: nat assume "r < length [[6, 10, 14, 11, 0, 0, 0, 0 :: int], [14, 11, 0, 0, 0, 0, 0, 0], [9, 16, 13, 3, 0, 0, 0, 0], [13, 3, 0, 0, 0, 0, 0, 0], [0, 0, 0, 0, 0, 0, 0, 0]]"
    then have "r = 0 \<or> r = 1 \<or> r = 2 \<or> r = 3 \<or> r = 4" by simp arith
    then show "4 \<le> length ([[6, 10, 14, 11, 0, 0, 0, 0 :: int], [14, 11, 0, 0, 0, 0, 0, 0], [9, 16, 13, 3, 0, 0, 0, 0], [13, 3, 0, 0, 0, 0, 0, 0], [0, 0, 0, 0, 0, 0, 0, 0]] ! r)" by (elim disjE) simp_all
  qed
  have h0: "int (length [[6, 10, 14, 11, 0, 0, 0, 0 :: int], [14, 11, 0, 0, 0, 0, 0, 0], [9, 16, 13, 3, 0, 0, 0, 0], [13, 3, 0, 0, 0, 0, 0, 0], [0, 0, 0, 0, 0, 0, 0, 0]]) \<le> INT_MAX" by (simp add: INT_MAX_def)
  note T = merge_preserves_elements[OF h1 h0, of 2 False 2]
  show ?thesis
    by (intro conjI T[THEN conjunct1, THEN mp, OF h2] T[THEN conjunct2, THEN mp, OF h3])
qed

section \<open>The claim about the topology\<close>




section \<open>The claim about the test vector\<close>

text \<open>
  Claim C1. With 9 processes (\<open>n = 16\<close>) rank 0 starts from the test vector
  \<open>{10, 6, 14, 11, 9, 16, 3, 13, 8, 12, 5, 2, 4, 15, 1, 7}\<close>; the scatter, the pairwise
  compare-swap and the merges of widths 4, 8 and 16 complete, and rank 0 prints
  \<open>{1, 2, \<dots>, 16}\<close>, whatever the memory of the processes held at the start.
\<close>

theorem main_sorts_test_vector:
  "main 9 shuffled mem = Some [1, 2, 3, 4, 5, 6, 7, 8, 9, 10, 11, 12, 13, 14, 15, 16]"
proof -
  obtain b8 where "main_scatter 9 shuffled mem = Some
   [[6, 10, 14, 11, 9, 16, 3, 13, 8, 12, 5, 2, 4, 15, 1, 7],
    14 # 11 # map (mem 1) [2..<16],
    9 # 16 # map (mem 2) [2..<16],
    13 # 3 # map (mem 3) [2..<16],
    8 # 12 # map (mem 4) [2..<16],
    5 # 2 # map (mem 5) [2..<16],
    4 # 15 # map (mem 6) [2..<16],
    7 # 1 # map (mem 7) [2..<16],
    b8]" using after_scatter by blast
  then show ?thesis
    using levels_on_test_vector[of mem b8]
    by (auto simp: main_def Let_def split: option.splits)
qed

end
